theory Spec2Isabelle
  imports Complex_Main "HOL-Library.Sublist" "HOL-Library.Char_ord"
begin

section \<open>Characters and strings\<close>

text \<open>
  A Python \<open>str\<close> is modelled as a \<open>string\<close> whose characters are the code points
  U+0000 to U+00FF, ordered by code point. The classifications below are those of
  CPython for these code points: \<open>str.isspace\<close> (also the regular-expression class
  \<open>\s\<close>), the class \<open>\d\<close>, the class \<open>\w\<close> (alphanumeric or underscore)
  and \<open>str.lower\<close>, which adds 32 to the code point of an upper-case letter.
\<close>

definition is_space :: "char \<Rightarrow> bool" where
  "is_space c = ((CHR 0x09 \<le> c \<and> c \<le> CHR 0x0D) \<or> (CHR 0x1C \<le> c \<and> c \<le> CHR 0x20)
     \<or> c = CHR 0x85 \<or> c = CHR 0xA0)"

definition is_digit :: "char \<Rightarrow> bool" where
  "is_digit c = (CHR ''0'' \<le> c \<and> c \<le> CHR ''9'')"

definition is_word :: "char \<Rightarrow> bool" where
  "is_word c = ((CHR ''0'' \<le> c \<and> c \<le> CHR ''9'') \<or> (CHR ''A'' \<le> c \<and> c \<le> CHR ''Z'')
     \<or> c = CHR ''_'' \<or> (CHR ''a'' \<le> c \<and> c \<le> CHR ''z'')
     \<or> c = CHR 0xAA \<or> c = CHR 0xB2 \<or> c = CHR 0xB3 \<or> c = CHR 0xB5 \<or> c = CHR 0xB9
     \<or> c = CHR 0xBA \<or> (CHR 0xBC \<le> c \<and> c \<le> CHR 0xBE) \<or> (CHR 0xC0 \<le> c \<and> c \<le> CHR 0xD6)
     \<or> (CHR 0xD8 \<le> c \<and> c \<le> CHR 0xF6) \<or> CHR 0xF8 \<le> c)"

definition is_upper :: "char \<Rightarrow> bool" where
  "is_upper c = ((CHR ''A'' \<le> c \<and> c \<le> CHR ''Z'') \<or> (CHR 0xC0 \<le> c \<and> c \<le> CHR 0xD6)
     \<or> (CHR 0xD8 \<le> c \<and> c \<le> CHR 0xDE))"

definition lower_char :: "char \<Rightarrow> char" where
  "lower_char c = (if is_upper c then char_of (of_char c + (32 :: nat)) else c)"

definition lower :: "string \<Rightarrow> string" where
  "lower s = map lower_char s"

text \<open>\<open>str.strip()\<close>: whitespace removed at both ends.\<close>

definition strip :: "string \<Rightarrow> string" where
  "strip s = rev (dropWhile is_space (rev (dropWhile is_space s)))"

text \<open>
  \<open>str.replace(old, new)\<close>: the occurrences of \<open>old\<close> are found from left to right
  and do not overlap; an empty \<open>old\<close> matches before every character and at the end.
\<close>

function replace_scan :: "string \<Rightarrow> string \<Rightarrow> string \<Rightarrow> string" where
  "replace_scan old new [] = []"
| "replace_scan old new (c # cs) =
     (if old \<noteq> [] \<and> prefix old (c # cs)
      then new @ replace_scan old new (drop (length old) (c # cs))
      else c # replace_scan old new cs)"
  by pat_completeness auto
termination
  by (relation "measure (\<lambda>(old, new, s). length s)") auto

definition replace :: "string \<Rightarrow> string \<Rightarrow> string \<Rightarrow> string" where
  "replace old new s =
     (if old = [] then new @ concat (map (\<lambda>c. c # new) s) else replace_scan old new s)"

text \<open>The \<open>in\<close> operator on strings: \<open>contains kw s\<close> is \<open>kw in s\<close>.\<close>

fun contains :: "string \<Rightarrow> string \<Rightarrow> bool" where
  "contains kw [] = (kw = [])"
| "contains kw (c # cs) = (prefix kw (c # cs) \<or> contains kw cs)"

text \<open>The decimal digits of a non-negative integer, as an f-string prints them.\<close>

function str_nat :: "nat \<Rightarrow> string" where
  "str_nat n = (if n < 10 then [char_of (48 + n)] else str_nat (n div 10) @ [char_of (48 + n mod 10)])"
  by pat_completeness auto
termination
  by (relation "measure id") auto

declare str_nat.simps [simp del]

section \<open>Dictionaries\<close>

text \<open>
  A Python \<open>dict\<close> is an association list in insertion order with distinct keys:
  assigning to a key that is present keeps its position, a new key goes to the end.
  Lookup is \<open>map_of\<close>; iteration over \<open>items()\<close> is the list itself.
\<close>

fun dict_set :: "'k \<Rightarrow> 'v \<Rightarrow> ('k \<times> 'v) list \<Rightarrow> ('k \<times> 'v) list" where
  "dict_set k v [] = [(k, v)]"
| "dict_set k v ((k', v') # d) = (if k' = k then (k, v) # d else (k', v') # dict_set k v d)"

section \<open>Regular expressions of the pattern registry\<close>

text \<open>
  The registry uses literals, character sets, the classes \<open>\d\<close> and \<open>\s\<close>, the
  word boundary \<open>\b\<close>, and greedy repetition (\<open>?\<close>, \<open>+\<close>, \<open>{m}\<close>, \<open>{m,n}\<close>,
  \<open>{m,}\<close>) of a single character or set. A pattern is a sequence of such nodes, matched by
  backtracking as \<open>re\<close> does: a repetition takes as many characters as it can and gives
  them back one at a time until the rest of the pattern matches.
\<close>

datatype cset_item = CChar char | CRange char char | CDigit | CSpace

datatype atom = Lit char | Set bool "cset_item list"

datatype node = One atom | Boundary | Repeat atom nat "nat option"

fun item_matches :: "cset_item \<Rightarrow> char \<Rightarrow> bool" where
  "item_matches (CChar x) c = (c = x)"
| "item_matches (CRange a b) c = (a \<le> c \<and> c \<le> b)"
| "item_matches CDigit c = is_digit c"
| "item_matches CSpace c = is_space c"

text \<open>
  \<open>Set True\<close> is a negated set. Under \<open>re.IGNORECASE\<close> a literal matches a character
  with the same lower case; no set of an IGNORECASE pattern of the registry holds a cased
  character, so sets are matched as written.
\<close>

fun atom_matches :: "bool \<Rightarrow> atom \<Rightarrow> char \<Rightarrow> bool" where
  "atom_matches ic (Lit x) c = (if ic then lower_char c = lower_char x else c = x)"
| "atom_matches ic (Set neg items) c = (neg \<noteq> list_ex (\<lambda>i. item_matches i c) items)"

definition word_boundary :: "string \<Rightarrow> nat \<Rightarrow> bool" where
  "word_boundary t i =
     ((0 < i \<and> i \<le> length t \<and> is_word (t ! (i - 1))) \<noteq> (i < length t \<and> is_word (t ! i)))"

text \<open>The number of characters from position \<open>i\<close> on that match the atom, at most \<open>hi\<close>.\<close>

definition count_run :: "bool \<Rightarrow> atom \<Rightarrow> string \<Rightarrow> nat \<Rightarrow> nat option \<Rightarrow> nat" where
  "count_run ic a t i hi =
     (let n = length (takeWhile (atom_matches ic a) (drop i t))
      in case hi of None \<Rightarrow> n | Some h \<Rightarrow> min n h)"

text \<open>
  \<open>backtrack k i lo n\<close>: the repetition has matched \<open>n\<close> characters from \<open>i\<close>; try the
  rest of the pattern \<open>k\<close> after \<open>n\<close>, \<open>n - 1\<close>, ... characters, never fewer than \<open>lo\<close>.
\<close>

fun backtrack :: "(nat \<Rightarrow> nat option) \<Rightarrow> nat \<Rightarrow> nat \<Rightarrow> nat \<Rightarrow> nat option" where
  "backtrack k i lo 0 = (if lo = 0 then k i else None)"
| "backtrack k i lo (Suc n) =
     (if Suc n < lo then None
      else case k (i + Suc n) of Some e \<Rightarrow> Some e | None \<Rightarrow> backtrack k i lo n)"

text \<open>\<open>match_here nodes ic t i\<close>: the end of the match of \<open>nodes\<close> that starts at \<open>i\<close>.\<close>

primrec match_here :: "node list \<Rightarrow> bool \<Rightarrow> string \<Rightarrow> nat \<Rightarrow> nat option" where
  "match_here [] ic t i = Some i"
| "match_here (x # r) ic t i =
     (case x of
        One a \<Rightarrow> (if i < length t \<and> atom_matches ic a (t ! i) then match_here r ic t (Suc i) else None)
      | Boundary \<Rightarrow> (if word_boundary t i then match_here r ic t i else None)
      | Repeat a lo hi \<Rightarrow> backtrack (match_here r ic t) i lo (count_run ic a t i hi))"

type_synonym pattern = "bool \<times> node list"

text \<open>
  \<open>pattern.finditer(text)\<close>: the matches from left to right; the search resumes at the
  end of the previous match (one position further after an empty match).
\<close>

function finditer_from :: "pattern \<Rightarrow> string \<Rightarrow> nat \<Rightarrow> (nat \<times> nat) list" where
  "finditer_from p t i =
     (if length t < i then []
      else case match_here (snd p) (fst p) t i of
             None \<Rightarrow> finditer_from p t (Suc i)
           | Some e \<Rightarrow> (i, e) # finditer_from p t (if i < e then e else Suc i))"
  by pat_completeness auto
termination
  by (relation "measure (\<lambda>(p, t, i). Suc (length t) - i)") auto

declare finditer_from.simps [simp del]

definition finditer :: "pattern \<Rightarrow> string \<Rightarrow> (nat \<times> nat) list" where
  "finditer p t = finditer_from p t 0"

section \<open>The pattern registry\<close>

abbreviation digit :: atom where
  "digit \<equiv> Set False [CDigit]"

definition sg_nric :: pattern where
  "sg_nric = (False, [Boundary, One (Set False [CChar CHR ''S'', CChar CHR ''T'', CChar CHR ''F'',
     CChar CHR ''G'', CChar CHR ''M'']), Repeat digit 7 (Some 7),
     One (Set False [CRange CHR ''A'' CHR ''Z'']), Boundary])"

definition sg_mobile :: pattern where
  "sg_mobile = (False, [Boundary, One (Set False [CChar CHR ''8'', CChar CHR ''9'']),
     Repeat digit 7 (Some 7), Boundary])"

definition sg_landline :: pattern where
  "sg_landline = (False, [Boundary, One (Lit CHR ''6''), Repeat digit 7 (Some 7), Boundary])"

definition sg_prefixed :: pattern where
  "sg_prefixed = (False, [Boundary, One (Lit CHR ''+''), One (Lit CHR ''6''), One (Lit CHR ''5''),
     Repeat (Set False [CSpace]) 0 (Some 1),
     One (Set False [CChar CHR ''6'', CChar CHR ''8'', CChar CHR ''9'']),
     Repeat digit 7 (Some 7), Boundary])"

definition mrn :: pattern where
  "mrn = (True, [Boundary, One (Lit CHR ''M''), One (Lit CHR ''R''), One (Lit CHR ''N''),
     Repeat (Set False [CChar CHR '':'', CSpace, CChar CHR ''-'']) 0 (Some 1),
     Repeat digit 6 (Some 10), Boundary])"

definition email :: pattern where
  "email = (False, [Boundary,
     Repeat (Set False [CRange CHR ''A'' CHR ''Z'', CRange CHR ''a'' CHR ''z'', CRange CHR ''0'' CHR ''9'',
       CChar CHR ''.'', CChar CHR ''_'', CChar CHR ''%'', CChar CHR ''+'', CChar CHR ''-'']) 1 None,
     One (Lit CHR ''@''),
     Repeat (Set False [CRange CHR ''A'' CHR ''Z'', CRange CHR ''a'' CHR ''z'', CRange CHR ''0'' CHR ''9'',
       CChar CHR ''.'', CChar CHR ''-'']) 1 None,
     One (Lit CHR ''.''),
     Repeat (Set False [CRange CHR ''A'' CHR ''Z'', CChar CHR ''|'', CRange CHR ''a'' CHR ''z'']) 2 None,
     Boundary])"

definition credit_card :: pattern where
  "credit_card = (False, [Boundary,
     Repeat digit 4 (Some 4), Repeat (Set False [CSpace, CChar CHR ''-'']) 0 (Some 1),
     Repeat digit 4 (Some 4), Repeat (Set False [CSpace, CChar CHR ''-'']) 0 (Some 1),
     Repeat digit 4 (Some 4), Repeat (Set False [CSpace, CChar CHR ''-'']) 0 (Some 1),
     Repeat digit 1 (Some 7), Boundary])"

definition ipv4 :: pattern where
  "ipv4 = (False, [Boundary,
     Repeat digit 1 (Some 3), One (Lit CHR ''.''), Repeat digit 1 (Some 3), One (Lit CHR ''.''),
     Repeat digit 1 (Some 3), One (Lit CHR ''.''), Repeat digit 1 (Some 3), Boundary])"

definition url :: pattern where
  "url = (True, [One (Lit CHR ''h''), One (Lit CHR ''t''), One (Lit CHR ''t''), One (Lit CHR ''p''),
     Repeat (Lit CHR ''s'') 0 (Some 1), One (Lit CHR '':''), One (Lit CHR ''/''), One (Lit CHR ''/''),
     Repeat (Set True [CSpace, CChar CHR ''<'', CChar CHR ''>'', CChar CHR 0x22, CChar CHR 0x27]) 1 None])"

definition date_slashed :: pattern where
  "date_slashed = (False, [Boundary,
     Repeat digit 1 (Some 2), One (Set False [CChar CHR ''/'', CChar CHR ''-'']),
     Repeat digit 1 (Some 2), One (Set False [CChar CHR ''/'', CChar CHR ''-'']),
     Repeat digit 2 (Some 4), Boundary])"

definition date_iso :: pattern where
  "date_iso = (False, [Boundary, Repeat digit 4 (Some 4), One (Lit CHR ''-''),
     Repeat digit 2 (Some 2), One (Lit CHR ''-''), Repeat digit 2 (Some 2), Boundary])"

definition PATTERNS :: "(string \<times> pattern) list" where
  "PATTERNS =
     [(''SG_NRIC'', sg_nric),
      (''PHONE_NUMBER'', sg_mobile),
      (''PHONE_NUMBER'', sg_landline),
      (''PHONE_NUMBER'', sg_prefixed),
      (''MEDICAL_RECORD_NUMBER'', mrn),
      (''EMAIL_ADDRESS'', email),
      (''CREDIT_CARD'', credit_card),
      (''IP_ADDRESS'', ipv4),
      (''URL'', url),
      (''DATE_TIME'', date_slashed),
      (''DATE_TIME'', date_iso)]"

section \<open>The redaction map\<close>

record RedactionMap =
  ident :: string
  forward :: "(string \<times> string) list"
  reverse :: "(string \<times> string) list"
  entity_counts :: "(string \<times> nat) list"

definition new_map :: "string \<Rightarrow> RedactionMap" where
  "new_map uid = \<lparr>ident = uid, forward = [], reverse = [], entity_counts = []\<rparr>"

definition placeholder :: "string \<Rightarrow> nat \<Rightarrow> string" where
  "placeholder entity_type count = ''<'' @ entity_type @ ''_'' @ str_nat count @ ''>''"

definition add :: "RedactionMap \<Rightarrow> string \<Rightarrow> string \<Rightarrow> string \<times> RedactionMap" where
  "add m original entity_type =
     (case map_of (forward m) original of
        Some p \<Rightarrow> (p, m)
      | None \<Rightarrow>
          (let count = (case map_of (entity_counts m) entity_type of None \<Rightarrow> 0 | Some c \<Rightarrow> c) + 1;
               p = placeholder entity_type count
           in (p, m\<lparr>entity_counts := dict_set entity_type count (entity_counts m),
                    forward := dict_set original p (forward m),
                    reverse := dict_set p original (reverse m)\<rparr>)))"

definition total_entities :: "RedactionMap \<Rightarrow> nat" where
  "total_entities m = length (forward m)"

section \<open>The redaction engine\<close>

text \<open>
  The store \<open>_redaction_store\<close> is passed in and returned. The identifier that
  \<open>uuid.uuid4().hex\<close> gives the new map is the argument \<open>uid\<close>.
\<close>

type_synonym store = "string \<rightharpoonup> RedactionMap"

type_synonym span = "nat \<times> nat \<times> string \<times> string"

definition collect_matches :: "string \<Rightarrow> span list" where
  "collect_matches text =
     concat (map (\<lambda>(entity_type, pat).
       map (\<lambda>(s, e). (s, e, entity_type, take (e - s) (drop s text))) (finditer pat text)) PATTERNS)"

text \<open>\<open>matches.sort(key=lambda x: x[0], reverse=True)\<close>: stable, by start descending.\<close>

definition sort_desc :: "span list \<Rightarrow> span list" where
  "sort_desc ms = sort_key (\<lambda>m. - int (fst m)) ms"

definition overlaps :: "span \<Rightarrow> span \<Rightarrow> bool" where
  "overlaps m existing = (fst m < fst (snd existing) \<and> fst existing < fst (snd m))"

fun dedup :: "span list \<Rightarrow> span list \<Rightarrow> span list" where
  "dedup filtered [] = filtered"
| "dedup filtered (m # ms) =
     dedup (if list_ex (overlaps m) filtered then filtered else filtered @ [m]) ms"

fun substitute :: "span list \<Rightarrow> string \<Rightarrow> RedactionMap \<Rightarrow> string \<times> RedactionMap" where
  "substitute [] redacted m = (redacted, m)"
| "substitute ((s, e, entity_type, original_value) # rest) redacted m =
     (let (p, m') = add m original_value entity_type
      in substitute rest (take s redacted @ p @ drop e redacted) m')"

text \<open>The list \<open>filtered\<close> that \<open>redact\<close> builds from the matches: sorted, then de-duplicated.\<close>

definition filtered_spans :: "span list \<Rightarrow> span list" where
  "filtered_spans matches = dedup [] (sort_desc matches)"

definition redact :: "store \<Rightarrow> string \<Rightarrow> string \<Rightarrow> store \<times> string \<times> RedactionMap" where
  "redact st uid text =
     (if text = [] \<or> strip text = [] then (st(uid \<mapsto> new_map uid), text, new_map uid)
      else let matches = collect_matches text in
        if matches = [] then (st(uid \<mapsto> new_map uid), text, new_map uid)
        else let filtered = filtered_spans matches;
                 (redacted, m) = substitute filtered text (new_map uid)
             in (st(ident m \<mapsto> m), redacted, m))"

text \<open>
  Exceptions: the \<open>KeyError\<close> that \<open>de_redact\<close> raises, and any exception raised by the
  Supabase library.
\<close>

datatype error = KeyError string | LibraryError string

definition de_redact :: "store \<Rightarrow> string \<Rightarrow> string \<Rightarrow> error + string" where
  "de_redact st redacted_text map_id =
     (case st map_id of
        None \<Rightarrow> Inl (KeyError (''Redaction map '' @ [CHR 0x27] @ map_id @ [CHR 0x27]
                                @ '' not found or has expired''))
      | Some m \<Rightarrow> Inr (fold (\<lambda>(p, original) result. replace p original result) (reverse m) redacted_text))"

definition cleanup_redaction_map :: "store \<Rightarrow> string \<Rightarrow> store \<times> bool" where
  "cleanup_redaction_map st map_id = (st(map_id := None), st map_id \<noteq> None)"

section \<open>Importance scoring\<close>

subsection \<open>Floats\<close>

text \<open>
  A Python float is an IEEE 754 binary64 number, modelled as the real number it stands for.
  \<open>double x\<close> is the float nearest to the real \<open>x\<close>, a tie going to the even
  significand: \<open>x\<close> is rounded to a multiple of \<open>2 ^ (e - 52)\<close>, where \<open>e\<close> is the
  binary exponent of \<open>x\<close>, not below \<open>- 1022\<close> (subnormal numbers). The exponent has no
  upper bound here: infinities are not modelled. A float literal is the \<open>double\<close> of the
  decimal it writes, and an arithmetic operation returns the \<open>double\<close> of the exact result;
  comparisons, \<open>min\<close> and \<open>max\<close> are exact.
\<close>

definition round_half_even :: "real \<Rightarrow> int" where
  "round_half_even x =
     (let f = \<lfloor>x\<rfloor>; d = x - of_int f
      in if d < 1 / 2 then f else if 1 / 2 < d then f + 1 else if even f then f else f + 1)"

definition pow2 :: "int \<Rightarrow> real" where
  "pow2 k = (if 0 \<le> k then 2 ^ nat k else 1 / 2 ^ nat (- k))"

definition exponent :: "real \<Rightarrow> int" where
  "exponent x = max (- 1022) \<lfloor>log 2 \<bar>x\<bar>\<rfloor>"

definition double :: "real \<Rightarrow> real" where
  "double x =
     (if x = 0 then 0
      else of_int (round_half_even (x / pow2 (exponent x - 52))) * pow2 (exponent x - 52))"

definition fadd :: "real \<Rightarrow> real \<Rightarrow> real" where
  "fadd a b = double (a + b)"

definition fmul :: "real \<Rightarrow> real \<Rightarrow> real" where
  "fmul a b = double (a * b)"

definition fdiv :: "real \<Rightarrow> real \<Rightarrow> real" where
  "fdiv a b = double (a / b)"

subsection \<open>Configuration\<close>

definition RECENCY_WEIGHT :: real where
  "RECENCY_WEIGHT = double (3 / 10)"

definition RISK_LEVEL_WEIGHT :: real where
  "RISK_LEVEL_WEIGHT = double (3 / 10)"

definition UNRESOLVED_ACTION_WEIGHT :: real where
  "UNRESOLVED_ACTION_WEIGHT = double (2 / 10)"

definition LEARNED_WEIGHT :: real where
  "LEARNED_WEIGHT = double (2 / 10)"

definition RISK_LEVEL_SCORES :: "(string \<times> real) list" where
  "RISK_LEVEL_SCORES =
     [(''critical'', double 1), (''high'', double (8 / 10)), (''medium'', double (5 / 10)),
      (''low'', double (2 / 10))]"

definition ACTION_TYPE_WEIGHTS :: "(string \<times> real) list" where
  "ACTION_TYPE_WEIGHTS =
     [(''accept'', double 1), (''manual_highlight'', double (8 / 10)), (''comment'', double (7 / 10)),
      (''pin'', double (7 / 10)), (''edit'', double (5 / 10)), (''view'', double (3 / 10)),
      (''reject'', double (- (3 / 10))), (''dismiss'', double (- (2 / 10))), (''unpin'', double 0)]"

definition UNRESOLVED_KEYWORDS :: "string list" where
  "UNRESOLVED_KEYWORDS =
     [''pending'', ''monitor'', ''follow up'', ''follow-up'', ''reassess'',
      ''unresolved'', ''continue'', ''review'', ''escalate'', ''refer'',
      ''outstanding'', ''awaiting'', ''to be'', ''tbd'', ''scheduled'']"

subsection \<open>The Supabase client\<close>

text \<open>
  A row of \<open>interaction_log\<close> as the query selects it. A field is \<open>None\<close> when the key is
  absent. The value under \<open>keywords\<close> of the metadata is a list of strings, a string, or
  something else; metadata without that key is \<open>Some (KwList [])\<close>.
\<close>

datatype keywords_field = KwList "string list" | KwStr string | KwOther

record row =
  action_type :: "string option"
  target_id :: "string option"
  target_metadata :: "keywords_field option"

text \<open>
  What \<open>query.execute()\<close> does: it raises, or it returns the rows of \<open>response.data\<close>
  (no data is the empty list). A client is known by the outcome of its query.
\<close>

datatype query_result = QueryRaises string | QueryData "row list"

datatype client = Client query_result

fun execute :: "client \<Rightarrow> query_result" where
  "execute (Client r) = r"

text \<open>
  The module state and its surroundings: the cached client \<open>_supabase_client\<close>, the two
  environment variables, and the library function \<open>create_client\<close>, which may
  raise.
\<close>

record world =
  supabase_client :: "client option"
  SUPABASE_URL :: "string option"
  SUPABASE_SERVICE_ROLE_KEY :: "string option"
  create_client :: "string \<Rightarrow> string \<Rightarrow> error + client"

definition get_supabase :: "world \<Rightarrow> error + (client option \<times> world)" where
  "get_supabase w =
     (case supabase_client w of
        Some c \<Rightarrow> Inr (Some c, w)
      | None \<Rightarrow>
          (case (SUPABASE_URL w, SUPABASE_SERVICE_ROLE_KEY w) of
             (Some u, Some k) \<Rightarrow>
               (if u = [] \<or> k = [] then Inr (None, w)
                else case create_client w u k of
                       Inl err \<Rightarrow> Inl err
                     | Inr c \<Rightarrow> Inr (Some c, w\<lparr>supabase_client := Some c\<rparr>))
           | _ \<Rightarrow> Inr (None, w)))"

subsection \<open>Component scores\<close>

text \<open>
  A \<open>datetime\<close>: the microseconds from the epoch to its wall-clock fields, and the offset
  of its time zone from UTC in microseconds (\<open>None\<close> for a naive datetime).
\<close>

record datetime =
  wall_us :: int
  utcoffset_us :: "int option"

datatype timestamp = NoTimestamp | IsoString string | Datetime datetime

definition instant_us :: "datetime \<Rightarrow> int" where
  "instant_us dt = wall_us dt - (case utcoffset_us dt of None \<Rightarrow> 0 | Some off \<Rightarrow> off)"

definition recency_of_age :: "real \<Rightarrow> real" where
  "recency_of_age age_hours =
     (if age_hours \<le> 24 then double 1
      else if age_hours \<le> 72 then double (8 / 10)
      else if age_hours \<le> 168 then double (6 / 10)
      else if age_hours \<le> 336 then double (4 / 10)
      else if age_hours \<le> 720 then double (2 / 10)
      else double (1 / 10))"

text \<open>
  \<open>fromisoformat\<close> is \<open>datetime.fromisoformat\<close> (\<open>None\<close> when it raises
  \<open>ValueError\<close>) and \<open>now_us\<close> is \<open>datetime.now(timezone.utc)\<close>. The first
  function is the parsing of lines 101 to 110: the datetime that \<open>created_at\<close> stands for.
  \<open>total_seconds()\<close> divides the microseconds of the difference by \<open>10 ** 6\<close>.
\<close>

definition parse_created_at :: "(string \<Rightarrow> datetime option) \<Rightarrow> timestamp \<Rightarrow> datetime option" where
  "parse_created_at fromisoformat created_at =
     (case created_at of
        NoTimestamp \<Rightarrow> None
      | IsoString s \<Rightarrow> fromisoformat (replace ''Z'' ''+00:00'' s)
      | Datetime d \<Rightarrow> Some d)"

definition compute_recency_score :: "(string \<Rightarrow> datetime option) \<Rightarrow> int \<Rightarrow> timestamp \<Rightarrow> real" where
  "compute_recency_score fromisoformat now_us created_at =
     (case parse_created_at fromisoformat created_at of
        None \<Rightarrow> double (5 / 10)
      | Some dt \<Rightarrow>
          (let dt = (if utcoffset_us dt = None then dt\<lparr>utcoffset_us := Some 0\<rparr> else dt);
               total_seconds = fdiv (real_of_int (now_us - instant_us dt)) 1000000;
               age_hours = max 0 (fdiv total_seconds 3600)
           in recency_of_age age_hours))"

definition compute_risk_score :: "string \<Rightarrow> real" where
  "compute_risk_score risk_level =
     (case map_of RISK_LEVEL_SCORES (strip (lower risk_level)) of
        None \<Rightarrow> double (5 / 10)
      | Some v \<Rightarrow> v)"

definition compute_unresolved_score :: "string \<Rightarrow> real" where
  "compute_unresolved_score content =
     (if content = [] then double 0
      else let content_lower = lower content;
               matches = length (filter (\<lambda>kw. contains kw content_lower) UNRESOLVED_KEYWORDS)
           in if 3 \<le> matches then double 1
              else if 2 \<le> matches then double (8 / 10)
              else if 1 \<le> matches then double (5 / 10)
              else double 0)"

definition stopwords :: "string list" where
  "stopwords =
     [''the'', ''and'', ''was'', ''for'', ''that'', ''with'', ''this'', ''from'',
      ''are'', ''were'', ''been'', ''have'', ''has'', ''had'', ''not'', ''but'',
      ''what'', ''all'', ''can'', ''her'', ''his'', ''one'', ''our'', ''out'',
      ''also'', ''into'', ''its'', ''may'', ''than'', ''then'', ''them'',
      ''some'', ''she'', ''him'', ''how'', ''did'', ''who'', ''will'']"

text \<open>The pattern \<open>[a-z]{3,}\<close>. Sets of strings are lists without repetition.\<close>

definition keyword_pattern :: pattern where
  "keyword_pattern = (False, [Repeat (Set False [CRange CHR ''a'' CHR ''z'']) 3 None])"

definition extract_keywords :: "string \<Rightarrow> string list" where
  "extract_keywords text =
     (let t = lower text;
          words = map (\<lambda>(s, e). take (e - s) (drop s t)) (finditer keyword_pattern t)
      in remdups (filter (\<lambda>w. w \<notin> set stopwords) words))"

text \<open>\<open>str.split(",")\<close>.\<close>

fun split_on :: "char \<Rightarrow> string \<Rightarrow> string list" where
  "split_on d [] = [[]]"
| "split_on d (c # cs) =
     (if c = d then [] # split_on d cs
      else case split_on d cs of w # ws \<Rightarrow> (c # w) # ws | [] \<Rightarrow> [[c]])"

subsection \<open>The learned score\<close>

text \<open>
  One turn of the loop over the rows, on the dictionaries \<open>target_scores\<close> and
  \<open>target_keyword_overlap\<close>; reading a missing key raises \<open>KeyError\<close>.
\<close>

type_synonym dicts = "(string \<times> real) list \<times> (string \<times> real) list"

definition row_step :: "string list \<Rightarrow> row \<Rightarrow> dicts \<Rightarrow> error + dicts" where
  "row_step keywords r acc =
     (let (target_scores, target_keyword_overlap) = acc;
          action = (case action_type r of None \<Rightarrow> ''view'' | Some a \<Rightarrow> a);
          tid = (case target_id r of None \<Rightarrow> [] | Some i \<Rightarrow> i);
          stored_keywords_raw = (case target_metadata r of None \<Rightarrow> KwList [] | Some k \<Rightarrow> k);
          stored_keywords = (case stored_keywords_raw of
                               KwList l \<Rightarrow> remdups l
                             | KwStr s \<Rightarrow> remdups (split_on CHR '','' s)
                             | KwOther \<Rightarrow> []);
          overlap = filter (\<lambda>k. k \<in> set stored_keywords) keywords
      in if stored_keywords \<noteq> [] \<and> overlap = [] then Inr acc
         else
           let overlap_ratio = (if stored_keywords \<noteq> []
                                then fdiv (real (length overlap)) (real (max (length keywords) 1))
                                else double (2 / 10));
               type_multiplier = (case map_of ACTION_TYPE_WEIGHTS action of
                                    None \<Rightarrow> double (3 / 10)
                                  | Some x \<Rightarrow> x);
               is_new = (map_of target_scores tid = None);
               scores1 = (if is_new then dict_set tid (double 0) target_scores else target_scores);
               overlaps1 = (if is_new then dict_set tid (double 0) target_keyword_overlap
                            else target_keyword_overlap)
           in case (map_of scores1 tid, map_of overlaps1 tid) of
                (Some old_score, Some old_overlap) \<Rightarrow>
                  Inr (dict_set tid (fadd old_score type_multiplier) scores1,
                       dict_set tid (max old_overlap overlap_ratio) overlaps1)
              | _ \<Rightarrow> Inl (KeyError tid))"

fun rows_loop :: "string list \<Rightarrow> row list \<Rightarrow> dicts \<Rightarrow> error + dicts" where
  "rows_loop keywords [] acc = Inr acc"
| "rows_loop keywords (r # rs) acc =
     (case row_step keywords r acc of Inl err \<Rightarrow> Inl err | Inr acc' \<Rightarrow> rows_loop keywords rs acc')"

text \<open>The loop over \<open>target_scores.items()\<close>; a missing key raises \<open>KeyError\<close>.\<close>

fun totals ::
  "(string \<times> real) list \<Rightarrow> (string \<times> real) list \<Rightarrow> real \<times> real \<Rightarrow> error + real \<times> real" where
  "totals [] target_keyword_overlap acc = Inr acc"
| "totals ((tid, score) # rest) target_keyword_overlap (total_score, total_weight) =
     (case map_of target_keyword_overlap tid of
        None \<Rightarrow> Inl (KeyError tid)
      | Some overlap \<Rightarrow>
          totals rest target_keyword_overlap
            (fadd total_score (fmul overlap score), fadd total_weight overlap))"

text \<open>The body of the \<open>try\<close> statement.\<close>

definition query_learned_score :: "client \<Rightarrow> string list \<Rightarrow> error + real" where
  "query_learned_score c keywords =
     (case execute c of
        QueryRaises msg \<Rightarrow> Inl (LibraryError msg)
      | QueryData rows \<Rightarrow>
          (if rows = [] then Inr (double (5 / 10))
           else case rows_loop keywords rows ([], []) of
                  Inl err \<Rightarrow> Inl err
                | Inr (target_scores, target_keyword_overlap) \<Rightarrow>
                    (if target_scores = [] then Inr (double (5 / 10))
                     else case totals target_scores target_keyword_overlap (double 0, double 0) of
                            Inl err \<Rightarrow> Inl err
                          | Inr (total_score, total_weight) \<Rightarrow>
                              (if total_weight = 0 then Inr (double (5 / 10))
                               else let raw = fdiv total_score total_weight;
                                        normalized = min (double 1) (fdiv raw (double 5))
                                    in Inr (max (double 0) normalized)))))"

definition compute_learned_score :: "world \<Rightarrow> string \<Rightarrow> error + real \<times> world" where
  "compute_learned_score w content =
     (case get_supabase w of
        Inl err \<Rightarrow> Inl err
      | Inr (None, w') \<Rightarrow> Inr (double (5 / 10), w')
      | Inr (Some c, w') \<Rightarrow>
          (let keywords = extract_keywords content
           in if keywords = [] then Inr (double (5 / 10), w')
              else case query_learned_score c keywords of
                     Inl err \<Rightarrow> Inr (double (5 / 10), w')
                   | Inr v \<Rightarrow> Inr (v, w')))"

subsection \<open>The composite score\<close>

text \<open>
  \<open>round(x, n)\<close> of a float: the exact value of \<open>x\<close> is rounded to the nearest multiple
  of \<open>10 ^ - n\<close>, a tie to the even one, and the result is the float nearest to that decimal.
\<close>

definition py_round :: "real \<Rightarrow> nat \<Rightarrow> real" where
  "py_round x n = double (of_int (round_half_even (x * 10 ^ n)) / 10 ^ n)"

text \<open>The weighted sum, clamped and rounded, of lines 304 to 323.\<close>

definition composite :: "real \<Rightarrow> real \<Rightarrow> real \<Rightarrow> real \<Rightarrow> real" where
  "composite recency risk unresolved learned =
     (let score = fadd (fadd (fadd (fmul RECENCY_WEIGHT recency) (fmul RISK_LEVEL_WEIGHT risk))
                              (fmul UNRESOLVED_ACTION_WEIGHT unresolved))
                        (fmul LEARNED_WEIGHT learned);
          final = max (double 0) (min (double 1) score)
      in py_round final 3)"

definition compute_importance_score ::
  "(string \<Rightarrow> datetime option) \<Rightarrow> int \<Rightarrow> world \<Rightarrow> string \<Rightarrow> string \<Rightarrow> timestamp \<Rightarrow> error + real \<times> world" where
  "compute_importance_score fromisoformat now_us w content risk_level created_at =
     (let recency = compute_recency_score fromisoformat now_us created_at;
          risk = compute_risk_score risk_level;
          unresolved = compute_unresolved_score content
      in case compute_learned_score w content of
           Inl err \<Rightarrow> Inl err
         | Inr (learned, w') \<Rightarrow> Inr (composite recency risk unresolved learned, w'))"

subsection \<open>Example surroundings\<close>

text \<open>
  No configuration in the environment; a cached client whose query times out; and a
  configuration that \<open>create_client\<close> refuses.
\<close>

definition unconfigured :: world where
  "unconfigured = \<lparr>supabase_client = None, SUPABASE_URL = None, SUPABASE_SERVICE_ROLE_KEY = None,
     create_client = (\<lambda>u k. Inl (LibraryError ''Invalid URL''))\<rparr>"

definition timing_out :: world where
  "timing_out = \<lparr>supabase_client = Some (Client (QueryRaises ''timed out'')),
     SUPABASE_URL = Some ''https://example.supabase.co'', SUPABASE_SERVICE_ROLE_KEY = Some ''key'',
     create_client = (\<lambda>u k. Inr (Client (QueryRaises ''timed out'')))\<rparr>"

definition misconfigured :: world where
  "misconfigured = \<lparr>supabase_client = None,
     SUPABASE_URL = Some ''localhost'', SUPABASE_SERVICE_ROLE_KEY = Some ''key'',
     create_client = (\<lambda>u k. Inl (LibraryError ''Invalid URL''))\<rparr>"

section \<open>Notions used in the statements\<close>

text \<open>
  The least number of characters that a pattern consumes, and the category labels of the
  registry.
\<close>

fun node_min :: "node \<Rightarrow> nat" where
  "node_min (One a) = 1"
| "node_min Boundary = 0"
| "node_min (Repeat a lo hi) = lo"

definition min_len :: "node list \<Rightarrow> nat" where
  "min_len r = sum_list (map node_min r)"

definition entity_types :: "string set" where
  "entity_types = fst ` set PATTERNS"

text \<open>
  The text between and around the kept spans. The spans come in descending order of start;
  \<open>chunks t b ks\<close> cuts the first \<open>b\<close> characters of \<open>t\<close> into the literal pieces
  and, for each span, a hole that carries the matched value. \<open>render f\<close> fills every hole
  with \<open>f\<close> of its value. \<open>wellplaced\<close> says that the spans lie in the text, one before the
  other, and carry the text they cover.
\<close>

datatype chunk = Piece string | Hole string

fun chunks :: "string \<Rightarrow> nat \<Rightarrow> span list \<Rightarrow> chunk list" where
  "chunks t b [] = [Piece (take b t)]"
| "chunks t b ((s, e, ty, g) # rest) = chunks t s rest @ [Hole g, Piece (take (b - e) (drop e t))]"

fun render_chunk :: "(string \<Rightarrow> string) \<Rightarrow> chunk \<Rightarrow> string" where
  "render_chunk f (Piece l) = l"
| "render_chunk f (Hole g) = f g"

definition render :: "(string \<Rightarrow> string) \<Rightarrow> chunk list \<Rightarrow> string" where
  "render f cs = concat (map (render_chunk f) cs)"

fun wellplaced :: "string \<Rightarrow> nat \<Rightarrow> span list \<Rightarrow> bool" where
  "wellplaced t b [] = True"
| "wellplaced t b ((s, e, ty, g) # rest) =
     (s \<le> e \<and> e \<le> b \<and> g = take (e - s) (drop s t) \<and> wellplaced t s rest)"

text \<open>
  The map after the spans have been registered in order, the placeholder it gives a value,
  and the count it holds for a category.
\<close>

fun register_all :: "span list \<Rightarrow> RedactionMap \<Rightarrow> RedactionMap" where
  "register_all [] m = m"
| "register_all ((s, e, ty, g) # rest) m = register_all rest (snd (add m g ty))"

definition placeholder_of :: "RedactionMap \<Rightarrow> string \<Rightarrow> string" where
  "placeholder_of m g = (case map_of (forward m) g of Some p \<Rightarrow> p | None \<Rightarrow> [])"

definition count_of :: "RedactionMap \<Rightarrow> string \<Rightarrow> nat" where
  "count_of m ty = (case map_of (entity_counts m) ty of None \<Rightarrow> 0 | Some c \<Rightarrow> c)"

text \<open>
  The distinct values in the order in which the spans bring them up, each with the category
  of the span that brought it up first; and the ordinal of a value: one more than the number
  of values of its category that came up before it.
\<close>

fun first_encounters :: "span list \<Rightarrow> (string \<times> string) list" where
  "first_encounters [] = []"
| "first_encounters ((s, e, ty, g) # rest) =
     (g, ty) # filter (\<lambda>(g', ty'). g' \<noteq> g) (first_encounters rest)"

definition ordinal :: "(string \<times> string) list \<Rightarrow> string \<Rightarrow> string \<Rightarrow> nat" where
  "ordinal fe ty g =
     Suc (length (filter (\<lambda>(g', ty'). ty' = ty) (takeWhile (\<lambda>(g', ty'). g' \<noteq> g) fe)))"

definition numbered :: "(string \<times> string) list \<Rightarrow> (string \<times> string) list" where
  "numbered fe = map (\<lambda>(g, ty). (g, placeholder ty (ordinal fe ty g))) fe"

definition numbering_inv :: "span list \<Rightarrow> RedactionMap \<Rightarrow> bool" where
  "numbering_inv seen m =
     (forward m = numbered (first_encounters seen)
      \<and> (\<forall>ty. count_of m ty = length (filter (\<lambda>(g', ty'). ty' = ty) (first_encounters seen))))"

text \<open>
  A text is clean when it has no \<open><\<close>. A well-formed placeholder is \<open><\<close>, a body
  without \<open><\<close> and \<open>>\<close>, and \<open>>\<close>.
\<close>

definition clean :: "string \<Rightarrow> bool" where
  "clean l = (CHR ''<'' \<notin> set l)"

definition wf_ph :: "string \<Rightarrow> bool" where
  "wf_ph p = (\<exists>body. p = CHR ''<'' # body @ ''>'' \<and> CHR ''<'' \<notin> set body \<and> CHR ''>'' \<notin> set body)"

fun subst :: "string \<times> string \<Rightarrow> string \<Rightarrow> string" where
  "subst (p, v) x = (if x = p then v else x)"

definition registry_inv :: "RedactionMap \<Rightarrow> bool" where
  "registry_inv m =
     ((\<forall>g p. map_of (forward m) g = Some p \<longrightarrow>
          map_of (reverse m) p = Some g
          \<and> (\<exists>ty n. ty \<in> entity_types \<and> n \<le> count_of m ty \<and> p = placeholder ty n))
      \<and> (\<forall>(p, g) \<in> set (reverse m). wf_ph p))"

text \<open>
  Counting as the specification words it: \<open>occurrences kw s\<close> is the number of positions
  of \<open>s\<close> at which \<open>kw\<close> starts. A keyword occurs in a content regardless of case when
  some stretch of the content has, at each position, the letter of the keyword or its capital.
\<close>

definition occurrences :: "string \<Rightarrow> string \<Rightarrow> nat" where
  "occurrences kw s = length (filter (prefix kw) (suffixes s))"

definition letter_or_capital :: "char \<Rightarrow> char \<Rightarrow> bool" where
  "letter_or_capital k c =
     (c = k \<or> (CHR ''a'' \<le> k \<and> k \<le> CHR ''z'' \<and> of_char c + 32 = (of_char k :: nat)))"

definition occurs_ignoring_case :: "string \<Rightarrow> string \<Rightarrow> bool" where
  "occurs_ignoring_case kw content =
     (\<exists>ps mid ss. content = ps @ mid @ ss \<and> list_all2 letter_or_capital kw mid)"

section \<open>Evaluation of \<open>str.lower\<close>\<close>

text \<open>Adding 32 to the code point of an upper-case letter sets bit 5.\<close>

lemma lower_char_code [code]:
  "lower_char (Char b0 b1 b2 b3 b4 b5 b6 b7) =
     (if is_upper (Char b0 b1 b2 b3 b4 b5 b6 b7) then Char b0 b1 b2 b3 b4 True b6 b7
      else Char b0 b1 b2 b3 b4 b5 b6 b7)"
  by (cases b0; cases b1; cases b2; cases b3; cases b4; cases b5; cases b6; cases b7;
      simp add: lower_char_def is_upper_def char_of_eq_iff take_bit_eq_mod)

section \<open>Release of a map\<close>

text \<open>
  C5 (idempotent release). For every store and identifier, \<open>cleanup_redaction_map\<close>
  removes the identifier from the store, leaves every other entry as it was, and returns
  whether the identifier was present. It returns a plain value, so it never raises. A
  second release of the same identifier changes nothing and returns \<open>False\<close>.
\<close>

theorem release_idempotent:
  "fst (cleanup_redaction_map st k) = st(k := None)
   \<and> fst (cleanup_redaction_map st k) k = None
   \<and> snd (cleanup_redaction_map st k) = (k \<in> dom st)
   \<and> cleanup_redaction_map (fst (cleanup_redaction_map st k)) k
       = (fst (cleanup_redaction_map st k), False)"
  by (auto simp: cleanup_redaction_map_def)

section \<open>Unknown identifiers\<close>

text \<open>
  C3 (unknown-map error). When the identifier is not in the store, \<open>de_redact\<close> fails
  with the \<open>KeyError\<close> of the source (the not-found error of the specification), whatever the
  text is; in particular it does not return the text.
\<close>

theorem de_redact_unknown:
  assumes "map_id \<notin> dom st"
  shows "(\<exists>msg. de_redact st text map_id = Inl (KeyError msg)) \<and> de_redact st text map_id \<noteq> Inr text"
  using assms by (auto simp: de_redact_def dom_def)

theorem de_redact_unknown_witness:
  "''unknown-id'' \<notin> dom (Map.empty :: store)
   \<and> (\<exists>msg. de_redact Map.empty ''<PERSON_1> called'' ''unknown-id'' = Inl (KeyError msg))
   \<and> de_redact Map.empty ''<PERSON_1> called'' ''unknown-id'' \<noteq> Inr ''<PERSON_1> called''"
proof -
  have h: "''unknown-id'' \<notin> dom (Map.empty :: store)" by simp
  show ?thesis using h de_redact_unknown [OF h, of "''<PERSON_1> called''"] by blast
qed

section \<open>Blank input\<close>

lemma strip_empty_iff: "strip s = [] \<longleftrightarrow> (\<forall>c \<in> set s. is_space c)"
proof
  assume "strip s = []"
  then have "\<forall>c \<in> set (dropWhile is_space s). is_space c"
    by (simp add: strip_def dropWhile_eq_Nil_conv)
  then have "dropWhile is_space s = []"
    using hd_dropWhile [of is_space s] hd_in_set [of "dropWhile is_space s"] by blast
  then show "\<forall>c \<in> set s. is_space c"
    by (simp add: dropWhile_eq_Nil_conv)
next
  assume "\<forall>c \<in> set s. is_space c"
  then have "dropWhile is_space s = []"
    by (simp add: dropWhile_eq_Nil_conv)
  then show "strip s = []"
    by (simp only: strip_def rev.simps dropWhile.simps)
qed

text \<open>
  C6 (empty input). When the text is empty or has only whitespace, \<open>redact\<close> returns the
  text unchanged with a new map that has no entries (zero total entities), stored under its
  identifier; the result is a value, not an error.
\<close>

theorem redact_blank:
  assumes "text = [] \<or> (\<forall>c \<in> set text. is_space c)"
  shows "redact st uid text = (st(uid \<mapsto> new_map uid), text, new_map uid)
         \<and> total_entities (new_map uid) = 0
         \<and> forward (new_map uid) = [] \<and> reverse (new_map uid) = []
         \<and> entity_counts (new_map uid) = [] \<and> ident (new_map uid) = uid"
  using assms by (auto simp: redact_def strip_empty_iff total_entities_def new_map_def)

theorem redact_blank_witness:
  "('' '' @ [CHR 0x09, CHR 0x0A] = [] \<or> (\<forall>c \<in> set ('' '' @ [CHR 0x09, CHR 0x0A]). is_space c))
   \<and> redact Map.empty ''u1'' ('' '' @ [CHR 0x09, CHR 0x0A])
       = (Map.empty(''u1'' \<mapsto> new_map ''u1''), '' '' @ [CHR 0x09, CHR 0x0A], new_map ''u1'')
   \<and> total_entities (new_map ''u1'') = 0"
proof -
  have h: "'' '' @ [CHR 0x09, CHR 0x0A] = [] \<or> (\<forall>c \<in> set ('' '' @ [CHR 0x09, CHR 0x0A]). is_space c)"
    by (simp add: is_space_def)
  show ?thesis using h redact_blank [OF h, of Map.empty "''u1''"] by blast
qed

section \<open>Kept spans do not overlap\<close>

lemma overlaps_disjoint:
  "\<not> overlaps (s, e, ty, g) (s', e', ty', g') \<Longrightarrow> {s..<e} \<inter> {s'..<e'} = {}"
  by (auto simp: overlaps_def)

lemma dedup_apart:
  "sorted_wrt (\<lambda>a b. \<not> overlaps b a) acc \<Longrightarrow> sorted_wrt (\<lambda>a b. \<not> overlaps b a) (dedup acc ms)"
proof (induction ms arbitrary: acc)
  case Nil
  then show ?case by simp
next
  case (Cons m ms)
  show ?case
  proof (cases "list_ex (overlaps m) acc")
    case True
    with Cons show ?thesis by simp
  next
    case False
    then have "sorted_wrt (\<lambda>a b. \<not> overlaps b a) (acc @ [m])"
      using Cons.prems by (auto simp: sorted_wrt_append list_ex_iff)
    with Cons.IH False show ?thesis by simp
  qed
qed

lemma filtered_apart: "sorted_wrt (\<lambda>a b. \<not> overlaps b a) (filtered_spans ms)"
  unfolding filtered_spans_def by (rule dedup_apart) simp

lemma overlaps_sym: "overlaps a b = overlaps b a"
  by (auto simp: overlaps_def)

text \<open>
  C4 (no-overlap invariant). For every text, any two different spans of the list that
  \<open>redact\<close> keeps for replacement are disjoint as half-open intervals of positions.
\<close>

theorem kept_spans_disjoint:
  assumes "i < j" and "j < length (filtered_spans (collect_matches text))"
    and "filtered_spans (collect_matches text) ! i = (s, e, ty, g)"
    and "filtered_spans (collect_matches text) ! j = (s', e', ty', g')"
  shows "{s..<e} \<inter> {s'..<e'} = {}"
proof -
  have "\<not> overlaps (s', e', ty', g') (s, e, ty, g)"
    using sorted_wrt_nth_less [OF filtered_apart assms(1) assms(2)] assms(3) assms(4)
    by simp
  then have "\<not> overlaps (s, e, ty, g) (s', e', ty', g')"
    by (simp add: overlaps_sym)
  then show ?thesis by (rule overlaps_disjoint)
qed

theorem kept_spans_disjoint_witness:
  "(0::nat) < 1 \<and> 1 < length (filtered_spans (collect_matches ''a@b.com at http://1.2.3.4/x''))
   \<and> filtered_spans (collect_matches ''a@b.com at http://1.2.3.4/x'') ! 0 = (18, 25, ''IP_ADDRESS'', ''1.2.3.4'')
   \<and> filtered_spans (collect_matches ''a@b.com at http://1.2.3.4/x'') ! 1 = (0, 7, ''EMAIL_ADDRESS'', ''a@b.com'')
   \<and> {18..<25::nat} \<inter> {0..<7} = {}"
proof -
  have h0: "(0::nat) < 1" by simp
  have h1: "1 < length (filtered_spans (collect_matches ''a@b.com at http://1.2.3.4/x''))"
    by code_simp
  have h2: "filtered_spans (collect_matches ''a@b.com at http://1.2.3.4/x'') ! 0
            = (18, 25, ''IP_ADDRESS'', ''1.2.3.4'')"
    by code_simp
  have h3: "filtered_spans (collect_matches ''a@b.com at http://1.2.3.4/x'') ! 1
            = (0, 7, ''EMAIL_ADDRESS'', ''a@b.com'')"
    by code_simp
  show ?thesis using h0 h1 h2 h3 kept_spans_disjoint [OF h0 h1 h2 h3] by blast
qed

section \<open>Rounding\<close>

text \<open>Rounding to the nearest integer, ties to even: bounds, monotonicity, and evaluation.\<close>

lemma rhe_lower: "of_int a \<le> x \<Longrightarrow> a \<le> round_half_even x"
proof -
  assume "of_int a \<le> x"
  then have "a \<le> \<lfloor>x\<rfloor>" by (simp add: le_floor_iff)
  moreover have "\<lfloor>x\<rfloor> \<le> round_half_even x" by (simp add: round_half_even_def Let_def)
  ultimately show ?thesis by linarith
qed

lemma rhe_upper: "x \<le> of_int b \<Longrightarrow> round_half_even x \<le> b"
proof -
  assume h: "x \<le> of_int b"
  have f: "\<lfloor>x\<rfloor> \<le> b" using h by (simp add: floor_le_iff)
  show ?thesis
  proof (cases "x - of_int \<lfloor>x\<rfloor> < 1 / 2")
    case True
    then show ?thesis using f by (simp add: round_half_even_def Let_def)
  next
    case False
    then have "of_int \<lfloor>x\<rfloor> < x" by linarith
    then have "of_int \<lfloor>x\<rfloor> < (of_int b :: real)" using h by linarith
    then have "\<lfloor>x\<rfloor> < b" by simp
    then show ?thesis by (simp add: round_half_even_def Let_def)
  qed
qed

lemma rhe_mono: "x \<le> y \<Longrightarrow> round_half_even x \<le> round_half_even y"
proof -
  assume h: "x \<le> y"
  have fm: "\<lfloor>x\<rfloor> \<le> \<lfloor>y\<rfloor>" using h by (rule floor_mono)
  show ?thesis
  proof (cases "\<lfloor>x\<rfloor> = \<lfloor>y\<rfloor>")
    case True
    then show ?thesis using h by (auto simp: round_half_even_def Let_def)
  next
    case False
    then have "\<lfloor>x\<rfloor> + 1 \<le> \<lfloor>y\<rfloor>" using fm by linarith
    moreover have "round_half_even x \<le> \<lfloor>x\<rfloor> + 1" by (simp add: round_half_even_def Let_def)
    moreover have "\<lfloor>y\<rfloor> \<le> round_half_even y" by (simp add: round_half_even_def Let_def)
    ultimately show ?thesis by linarith
  qed
qed

lemma rhe_of_int: "round_half_even (of_int k) = k"
  by (simp add: round_half_even_def)

lemma rhe_near:
  assumes "\<bar>x - of_int k\<bar> < 1 / 2"
  shows "round_half_even x = k"
proof (cases "of_int k \<le> x")
  case True
  moreover from assms True have "x < of_int k + 1" by linarith
  ultimately have "\<lfloor>x\<rfloor> = k" by (rule floor_unique)
  with assms True show ?thesis by (simp add: round_half_even_def Let_def)
next
  case False
  from assms False have a: "of_int (k - 1) \<le> x" by simp
  from False have b: "x < of_int (k - 1) + 1" by simp
  from a b have f: "\<lfloor>x\<rfloor> = k - 1" by (rule floor_unique)
  have "1 / 2 < x - of_int (k - 1)" using assms False by simp
  with f show ?thesis by (simp add: round_half_even_def Let_def)
qed

lemma rhe_minus: "round_half_even (- x) = - round_half_even x"
proof (cases "x = of_int \<lfloor>x\<rfloor>")
  case True
  then obtain k where "x = of_int k" ..
  then have "- x = of_int (- k)" by simp
  with \<open>x = of_int k\<close> show ?thesis by (simp only: rhe_of_int)
next
  case False
  then have lt: "of_int \<lfloor>x\<rfloor> < x" using of_int_floor_le [of x] by linarith
  have up: "x < of_int \<lfloor>x\<rfloor> + 1" by linarith
  have a: "of_int (- \<lfloor>x\<rfloor> - 1) \<le> - x" using up by simp linarith
  have b: "- x < of_int (- \<lfloor>x\<rfloor> - 1) + 1" using lt by simp
  from a b have fl: "\<lfloor>- x\<rfloor> = - \<lfloor>x\<rfloor> - 1" by (rule floor_unique)
  let ?d = "x - of_int \<lfloor>x\<rfloor>"
  have d: "- x - of_int (- \<lfloor>x\<rfloor> - 1) = 1 - ?d" by simp
  have pos: "0 < ?d" using lt by simp
  consider "?d < 1 / 2" | "1 / 2 < ?d" | "?d = 1 / 2" by linarith
  then show ?thesis
  proof cases
    case 1
    then have "1 / 2 < 1 - ?d" by linarith
    with 1 show ?thesis
      unfolding round_half_even_def Let_def fl d by simp
  next
    case 2
    then have "1 - ?d < 1 / 2" by linarith
    with 2 show ?thesis
      unfolding round_half_even_def Let_def fl d by simp
  next
    case 3
    then have "1 - ?d = 1 / 2" by linarith
    with 3 show ?thesis
      unfolding round_half_even_def Let_def fl d by simp
  qed
qed

section \<open>Floats\<close>

text \<open>
  Rounding to a double is monotone, keeps 0, 1 and the sign, and maps the unit interval
  into itself. \<open>double_eval_rounded\<close> evaluates it at a given number.
\<close>

lemma pow2_powr: "pow2 k = 2 powr real_of_int k"
  by (simp add: pow2_def powr_int)

lemma pow2_pos: "0 < pow2 k"
  by (simp add: pow2_powr)

lemma pow2_mono: "j \<le> k \<Longrightarrow> pow2 j \<le> pow2 k"
  by (simp add: pow2_powr)

lemma pow2_add: "pow2 (j + k) = pow2 j * pow2 k"
  by (simp add: pow2_powr powr_add)

lemma pow2_shift53: "pow2 (e + 1) = pow2 53 * pow2 (e - 52)"
  using pow2_add [of 53 "e - 52"] by (simp add: add.commute)

lemma pow2_shift52: "pow2 e = pow2 52 * pow2 (e - 52)"
  using pow2_add [of 52 "e - 52"] by simp

lemma pow2_quotient: "pow2 j / pow2 k = pow2 (j - k)"
  by (simp add: pow2_powr powr_diff)

lemma exponent_minus: "exponent (- x) = exponent x"
  by (simp add: exponent_def)

lemma exponent_upper:
  assumes "x \<noteq> 0"
  shows "\<bar>x\<bar> < pow2 (exponent x + 1)"
proof -
  have "\<bar>x\<bar> < 2 powr real_of_int (\<lfloor>log 2 \<bar>x\<bar>\<rfloor> + 1)"
    using floor_log_eq_powr_iff [of "\<bar>x\<bar>" 2 "\<lfloor>log 2 \<bar>x\<bar>\<rfloor>"] assms by simp
  also have "\<dots> \<le> pow2 (exponent x + 1)"
    unfolding pow2_powr exponent_def by (intro powr_mono) simp_all
  finally show ?thesis .
qed

lemma exponent_lower:
  assumes "x \<noteq> 0" and "- 1022 < exponent x"
  shows "pow2 (exponent x) \<le> \<bar>x\<bar>"
proof -
  from assms(2) have "exponent x = \<lfloor>log 2 \<bar>x\<bar>\<rfloor>" by (simp add: exponent_def max_def split: if_splits)
  then show ?thesis
    using floor_log_eq_powr_iff [of "\<bar>x\<bar>" 2 "\<lfloor>log 2 \<bar>x\<bar>\<rfloor>"] assms(1) by (simp add: pow2_powr)
qed

lemma exponent_mono:
  assumes "x \<noteq> 0" and "\<bar>x\<bar> \<le> \<bar>y\<bar>"
  shows "exponent x \<le> exponent y"
proof -
  have "log 2 \<bar>x\<bar> \<le> log 2 \<bar>y\<bar>" using assms by simp
  then have "\<lfloor>log 2 \<bar>x\<bar>\<rfloor> \<le> \<lfloor>log 2 \<bar>y\<bar>\<rfloor>" by (rule floor_mono)
  then show ?thesis by (simp add: exponent_def)
qed

lemma exponent_eval:
  assumes "pow2 e \<le> \<bar>x\<bar>" and "\<bar>x\<bar> < pow2 (e + 1)" and "- 1022 \<le> e"
  shows "exponent x = e"
proof -
  have "0 < \<bar>x\<bar>" using pow2_pos [of e] assms(1) by linarith
  then have "\<lfloor>log 2 \<bar>x\<bar>\<rfloor> = e"
    using floor_log_eq_powr_iff [of "\<bar>x\<bar>" 2 e] assms(1) assms(2) by (simp add: pow2_powr)
  with assms(3) show ?thesis by (simp add: exponent_def)
qed

lemma double_eval:
  assumes "pow2 e \<le> \<bar>x\<bar>" and "\<bar>x\<bar> < pow2 (e + 1)" and "- 1022 \<le> e"
    and "\<bar>x / pow2 (e - 52) - of_int k\<bar> < 1 / 2"
  shows "double x = of_int k * pow2 (e - 52)"
proof -
  have "0 < \<bar>x\<bar>" using pow2_pos [of e] assms(1) by linarith
  then have "x \<noteq> 0" by simp
  moreover have "exponent x = e" using assms(1) assms(2) assms(3) by (rule exponent_eval)
  moreover have "round_half_even (x / pow2 (e - 52)) = k" using assms(4) by (rule rhe_near)
  ultimately show ?thesis by (simp add: double_def)
qed

lemma double_zero: "double 0 = 0"
  by (simp add: double_def)

lemma double_one: "double 1 = 1"
proof -
  have "double 1 = of_int (2 ^ 52) * pow2 (0 - 52)"
    by (rule double_eval) (simp_all add: pow2_def)
  then show ?thesis by (simp add: pow2_def)
qed

lemma double_minus: "double (- x) = - double x"
  by (simp add: double_def exponent_minus rhe_minus)

lemma double_nonneg:
  assumes "0 \<le> x"
  shows "0 \<le> double x"
proof (cases "x = 0")
  case True
  then show ?thesis by (simp add: double_zero)
next
  case False
  have "of_int 0 \<le> x / pow2 (exponent x - 52)" using assms pow2_pos [of "exponent x - 52"] by simp
  then have "0 \<le> round_half_even (x / pow2 (exponent x - 52))" by (rule rhe_lower)
  with False pow2_pos [of "exponent x - 52"] show ?thesis by (simp add: double_def)
qed

lemma double_upper:
  assumes "0 < x"
  shows "double x \<le> pow2 (exponent x + 1)"
proof -
  let ?q = "pow2 (exponent x - 52)"
  have q: "0 < ?q" by (rule pow2_pos)
  have "x < pow2 (exponent x + 1)" using exponent_upper [of x] assms by simp
  also have "pow2 (exponent x + 1) = pow2 53 * ?q"
    by (rule pow2_shift53)
  finally have "x / ?q \<le> pow2 53" using q by (simp add: pos_divide_le_eq less_imp_le)
  also have "pow2 53 = of_int (2 ^ 53)" by (simp add: pow2_def)
  finally have "round_half_even (x / ?q) \<le> 2 ^ 53" by (rule rhe_upper)
  then have "of_int (round_half_even (x / ?q)) \<le> (of_int (2 ^ 53) :: real)" by (simp only: of_int_le_iff)
  then have "of_int (round_half_even (x / ?q)) * ?q \<le> pow2 53 * ?q"
    using q by (simp add: pow2_def)
  then show ?thesis
    using assms by (simp add: double_def pow2_shift53 [of "exponent x"])
qed

lemma double_lower:
  assumes "0 < x" and "- 1022 < exponent x"
  shows "pow2 (exponent x) \<le> double x"
proof -
  let ?q = "pow2 (exponent x - 52)"
  have q: "0 < ?q" by (rule pow2_pos)
  have "pow2 (exponent x) \<le> x" using exponent_lower [of x] assms by simp
  moreover have "pow2 (exponent x) = pow2 52 * ?q"
    by (rule pow2_shift52)
  ultimately have "pow2 52 \<le> x / ?q" using q by (simp add: pos_le_divide_eq)
  moreover have "pow2 52 = of_int (2 ^ 52)" by (simp add: pow2_def)
  ultimately have "of_int (2 ^ 52) \<le> x / ?q" by simp
  then have "2 ^ 52 \<le> round_half_even (x / ?q)" by (rule rhe_lower)
  then have "(of_int (2 ^ 52) :: real) \<le> of_int (round_half_even (x / ?q))" by (simp only: of_int_le_iff)
  then have "pow2 52 * ?q \<le> of_int (round_half_even (x / ?q)) * ?q"
    using q by (simp add: pow2_def)
  then show ?thesis
    using assms by (simp add: double_def pow2_shift52 [of "exponent x"])
qed

lemma double_mono_pos:
  assumes "0 < x" and "x \<le> y"
  shows "double x \<le> double y"
proof -
  have y: "0 < y" using assms by linarith
  have e: "exponent x \<le> exponent y" using assms by (intro exponent_mono) simp_all
  show ?thesis
  proof (cases "exponent x = exponent y")
    case True
    let ?q = "pow2 (exponent y - 52)"
    have q: "0 < ?q" by (rule pow2_pos)
    have "x / ?q \<le> y / ?q" using assms(2) q by (simp add: divide_right_mono)
    then have "round_half_even (x / ?q) \<le> round_half_even (y / ?q)" by (rule rhe_mono)
    then have "of_int (round_half_even (x / ?q)) * ?q \<le> of_int (round_half_even (y / ?q)) * ?q"
      using q by simp
    with True assms(1) y show ?thesis by (simp add: double_def)
  next
    case False
    with e have lt: "exponent x + 1 \<le> exponent y" by simp
    have "- 1022 \<le> exponent x" by (simp add: exponent_def)
    with lt have "- 1022 < exponent y" by simp
    then have "pow2 (exponent y) \<le> double y" using y by (intro double_lower)
    moreover have "double x \<le> pow2 (exponent x + 1)" using assms(1) by (rule double_upper)
    moreover have "pow2 (exponent x + 1) \<le> pow2 (exponent y)" using lt by (rule pow2_mono)
    ultimately show ?thesis by linarith
  qed
qed

lemma double_mono:
  assumes "x \<le> y"
  shows "double x \<le> double y"
proof -
  consider "0 < x" | "x \<le> 0" "0 \<le> y" | "y < 0" by linarith
  then show ?thesis
  proof cases
    case 1
    then show ?thesis using assms by (rule double_mono_pos)
  next
    case 2
    have "0 \<le> double (- x)" using 2(1) by (intro double_nonneg) simp
    then have "double x \<le> 0" by (simp add: double_minus)
    moreover have "0 \<le> double y" using 2(2) by (rule double_nonneg)
    ultimately show ?thesis by linarith
  next
    case 3
    then have "double (- y) \<le> double (- x)" using assms by (intro double_mono_pos) simp_all
    then show ?thesis by (simp add: double_minus)
  qed
qed

lemma double_unit: "0 \<le> x \<Longrightarrow> x \<le> 1 \<Longrightarrow> 0 \<le> double x \<and> double x \<le> 1"
  using double_mono [of x 1] double_nonneg [of x] by (simp add: double_one)

lemma rhe_tie:
  assumes "x = of_int k + 1 / 2"
  shows "round_half_even x = (if even k then k else k + 1)"
proof -
  have "of_int k \<le> x" and "x < of_int k + 1" using assms by simp_all
  then have "\<lfloor>x\<rfloor> = k" by (rule floor_unique)
  with assms show ?thesis by (simp add: round_half_even_def Let_def)
qed

lemma double_eval_rounded:
  assumes "pow2 e \<le> \<bar>x\<bar>" and "\<bar>x\<bar> < pow2 (e + 1)" and "- 1022 \<le> e"
    and "round_half_even (x / pow2 (e - 52)) = k"
  shows "double x = of_int k * pow2 (e - 52)"
proof -
  have "0 < \<bar>x\<bar>" using pow2_pos [of e] assms(1) by linarith
  then have "x \<noteq> 0" by simp
  moreover have "exponent x = e" using assms(1) assms(2) assms(3) by (rule exponent_eval)
  ultimately show ?thesis using assms(4) by (simp add: double_def)
qed

lemma double_half: "double (1 / 2) = 1 / 2"
proof -
  have "round_half_even ((1 / 2) / pow2 (- 1 - 52)) = 4503599627370496"
    by (rule rhe_near) (simp add: pow2_def)
  then have "double (1 / 2) = of_int 4503599627370496 * pow2 (- 1 - 52)"
    by (intro double_eval_rounded) (simp_all add: pow2_def)
  then show ?thesis by (simp add: pow2_def)
qed

section \<open>The composite score\<close>

lemma py_round_bounds: "0 \<le> x \<Longrightarrow> x \<le> 1 \<Longrightarrow> 0 \<le> py_round x 3 \<and> py_round x 3 \<le> 1"
proof -
  assume a: "0 \<le> x" and b: "x \<le> 1"
  have "of_int 0 \<le> x * 10 ^ 3" using a by simp
  then have l: "0 \<le> round_half_even (x * 10 ^ 3)" by (rule rhe_lower)
  have "x * 10 ^ 3 \<le> of_int 1000" using b by simp
  then have u: "round_half_even (x * 10 ^ 3) \<le> 1000" by (rule rhe_upper)
  have "0 \<le> real_of_int (round_half_even (x * 10 ^ 3)) / 10 ^ 3"
    and "real_of_int (round_half_even (x * 10 ^ 3)) / 10 ^ 3 \<le> 1"
    using l u by simp_all
  then show ?thesis unfolding py_round_def by (rule double_unit)
qed

lemma py_round_mono: "x \<le> y \<Longrightarrow> py_round x n \<le> py_round y n"
proof -
  assume "x \<le> y"
  then have "x * 10 ^ n \<le> y * 10 ^ n" by simp
  then have "round_half_even (x * 10 ^ n) \<le> round_half_even (y * 10 ^ n)" by (rule rhe_mono)
  then have "real_of_int (round_half_even (x * 10 ^ n)) / 10 ^ n
             \<le> real_of_int (round_half_even (y * 10 ^ n)) / 10 ^ n"
    by (simp add: divide_right_mono)
  then show ?thesis unfolding py_round_def by (rule double_mono)
qed

lemma composite_bounds: "0 \<le> composite r k u l \<and> composite r k u l \<le> 1"
  unfolding composite_def Let_def by (rule py_round_bounds) (simp_all add: double_zero double_one)

lemma fadd_mono: "a \<le> b \<Longrightarrow> c \<le> d \<Longrightarrow> fadd a c \<le> fadd b d"
  unfolding fadd_def by (rule double_mono) simp

lemma fmul_mono_right: "0 \<le> w \<Longrightarrow> a \<le> b \<Longrightarrow> fmul w a \<le> fmul w b"
  unfolding fmul_def by (rule double_mono) (simp add: mult_left_mono)

lemma fdiv_mono_left: "0 < d \<Longrightarrow> a \<le> b \<Longrightarrow> fdiv a d \<le> fdiv b d"
  unfolding fdiv_def by (rule double_mono) (simp add: divide_right_mono)

lemma composite_mono_risk:
  assumes "k1 \<le> k2"
  shows "composite r k1 u l \<le> composite r k2 u l"
proof -
  have "0 \<le> RISK_LEVEL_WEIGHT" unfolding RISK_LEVEL_WEIGHT_def by (rule double_nonneg) simp
  then have "fmul RISK_LEVEL_WEIGHT k1 \<le> fmul RISK_LEVEL_WEIGHT k2"
    using assms by (rule fmul_mono_right)
  then have "fadd (fadd (fadd (fmul RECENCY_WEIGHT r) (fmul RISK_LEVEL_WEIGHT k1))
                 (fmul UNRESOLVED_ACTION_WEIGHT u)) (fmul LEARNED_WEIGHT l)
             \<le> fadd (fadd (fadd (fmul RECENCY_WEIGHT r) (fmul RISK_LEVEL_WEIGHT k2))
                 (fmul UNRESOLVED_ACTION_WEIGHT u)) (fmul LEARNED_WEIGHT l)"
    by (intro fadd_mono order_refl)
  then show ?thesis
    unfolding composite_def Let_def by (intro py_round_mono) (simp add: min_def max_def)
qed

lemma composite_example:
  "composite (double (5 / 10)) (double 1) (double (5 / 10)) (double (5 / 10)) = double (13 / 20)"
proof -
  have w3: "double (3 / 10) = 5404319552844595 / 18014398509481984"
  proof -
    have "round_half_even ((3 / 10) / pow2 (-2 - 52)) = 5404319552844595"
      by (rule rhe_near) (simp add: pow2_def)
    then have "double (3 / 10) = of_int 5404319552844595 * pow2 (-2 - 52)"
      by (intro double_eval_rounded) (simp_all add: pow2_def)
    then show ?thesis by (simp add: pow2_def)
  qed
  have w2: "double (2 / 10) = 3602879701896397 / 18014398509481984"
  proof -
    have "round_half_even ((2 / 10) / pow2 (-3 - 52)) = 7205759403792794"
      by (rule rhe_near) (simp add: pow2_def)
    then have "double (2 / 10) = of_int 7205759403792794 * pow2 (-3 - 52)"
      by (intro double_eval_rounded) (simp_all add: pow2_def)
    then show ?thesis by (simp add: pow2_def)
  qed
  have half: "double (5 / 10) = 1 / 2"
  proof -
    have "round_half_even ((5 / 10) / pow2 (-1 - 52)) = 4503599627370496"
      by (rule rhe_near) (simp add: pow2_def)
    then have "double (5 / 10) = of_int 4503599627370496 * pow2 (-1 - 52)"
      by (intro double_eval_rounded) (simp_all add: pow2_def)
    then show ?thesis by (simp add: pow2_def)
  qed
  have p1: "double (5404319552844595 / 18014398509481984 * (1 / 2)) = 5404319552844595 / 36028797018963968"
  proof -
    have "round_half_even ((5404319552844595 / 18014398509481984 * (1 / 2)) / pow2 (-3 - 52)) = 5404319552844595"
      by (rule rhe_near) (simp add: pow2_def)
    then have "double (5404319552844595 / 18014398509481984 * (1 / 2)) = of_int 5404319552844595 * pow2 (-3 - 52)"
      by (intro double_eval_rounded) (simp_all add: pow2_def)
    then show ?thesis by (simp add: pow2_def)
  qed
  have p2: "double (5404319552844595 / 18014398509481984 * 1) = 5404319552844595 / 18014398509481984"
  proof -
    have "round_half_even ((5404319552844595 / 18014398509481984 * 1) / pow2 (-2 - 52)) = 5404319552844595"
      by (rule rhe_near) (simp add: pow2_def)
    then have "double (5404319552844595 / 18014398509481984 * 1) = of_int 5404319552844595 * pow2 (-2 - 52)"
      by (intro double_eval_rounded) (simp_all add: pow2_def)
    then show ?thesis by (simp add: pow2_def)
  qed
  have p3: "double (3602879701896397 / 18014398509481984 * (1 / 2)) = 3602879701896397 / 36028797018963968"
  proof -
    have "round_half_even ((3602879701896397 / 18014398509481984 * (1 / 2)) / pow2 (-4 - 52)) = 7205759403792794"
      by (rule rhe_near) (simp add: pow2_def)
    then have "double (3602879701896397 / 18014398509481984 * (1 / 2)) = of_int 7205759403792794 * pow2 (-4 - 52)"
      by (intro double_eval_rounded) (simp_all add: pow2_def)
    then show ?thesis by (simp add: pow2_def)
  qed
  have s1: "double (5404319552844595 / 36028797018963968 + 5404319552844595 / 18014398509481984) = 2026619832316723 / 4503599627370496"
  proof -
    have "(5404319552844595 / 36028797018963968 + 5404319552844595 / 18014398509481984) / pow2 (-2 - 52) = of_int 8106479329266892 + 1 / 2"
      by (simp add: pow2_def)
    then have "round_half_even ((5404319552844595 / 36028797018963968 + 5404319552844595 / 18014398509481984) / pow2 (-2 - 52)) = (if even (8106479329266892::int) then 8106479329266892 else 8106479329266892 + 1)"
      by (rule rhe_tie)
    then have "round_half_even ((5404319552844595 / 36028797018963968 + 5404319552844595 / 18014398509481984) / pow2 (-2 - 52)) = 8106479329266892"
      by simp
    then have "double (5404319552844595 / 36028797018963968 + 5404319552844595 / 18014398509481984) = of_int 8106479329266892 * pow2 (-2 - 52)"
      by (intro double_eval_rounded) (simp_all add: pow2_def)
    then show ?thesis by (simp add: pow2_def)
  qed
  have s2: "double (2026619832316723 / 4503599627370496 + 3602879701896397 / 36028797018963968) = 4953959590107545 / 9007199254740992"
  proof -
    have "round_half_even ((2026619832316723 / 4503599627370496 + 3602879701896397 / 36028797018963968) / pow2 (-1 - 52)) = 4953959590107545"
      by (rule rhe_near) (simp add: pow2_def)
    then have "double (2026619832316723 / 4503599627370496 + 3602879701896397 / 36028797018963968) = of_int 4953959590107545 * pow2 (-1 - 52)"
      by (intro double_eval_rounded) (simp_all add: pow2_def)
    then show ?thesis by (simp add: pow2_def)
  qed
  have s3: "double (4953959590107545 / 9007199254740992 + 3602879701896397 / 36028797018963968) = 1463669878895411 / 2251799813685248"
  proof -
    have "round_half_even ((4953959590107545 / 9007199254740992 + 3602879701896397 / 36028797018963968) / pow2 (-1 - 52)) = 5854679515581644"
      by (rule rhe_near) (simp add: pow2_def)
    then have "double (4953959590107545 / 9007199254740992 + 3602879701896397 / 36028797018963968) = of_int 5854679515581644 * pow2 (-1 - 52)"
      by (intro double_eval_rounded) (simp_all add: pow2_def)
    then show ?thesis by (simp add: pow2_def)
  qed
  have r: "round_half_even (1463669878895411 / 2251799813685248 * 10 ^ 3) = 650"
    by (rule rhe_near) simp
  have "py_round (1463669878895411 / 2251799813685248) 3 = double (13 / 20)"
    unfolding py_round_def r by simp
  then show ?thesis
    unfolding composite_def Let_def fadd_def fmul_def RECENCY_WEIGHT_def RISK_LEVEL_WEIGHT_def
      UNRESOLVED_ACTION_WEIGHT_def LEARNED_WEIGHT_def w3 w2 half double_one p1 p2 p3 s1 s2 s3
    by (simp add: double_zero)
qed

text \<open>
  C7 (score bounds and rounding). The arithmetic is that of IEEE-754 doubles: the weights
  are the doubles nearest to 0.3 and 0.2, and every product and every sum is rounded to the
  nearest double. Whenever the scorer returns a value, that value is the weighted sum
  \<open>0.3 * recency + 0.3 * risk + 0.2 * unresolved + 0.2 * learned\<close> of the four components,
  added from left to right, clamped to the interval from 0 to 1 and rounded to three decimal
  places as \<open>round\<close> does it, and it lies between 0 and 1. This holds for every content,
  risk level and timestamp.
\<close>

theorem score_bounds:
  assumes "compute_importance_score fromisoformat now_us w content risk_level created_at = Inr (v, w')"
  shows "(\<exists>learned. compute_learned_score w content = Inr (learned, w')
            \<and> v = py_round (max (double 0) (min (double 1)
                    (fadd (fadd (fadd
                       (fmul (double (3 / 10)) (compute_recency_score fromisoformat now_us created_at))
                       (fmul (double (3 / 10)) (compute_risk_score risk_level)))
                       (fmul (double (2 / 10)) (compute_unresolved_score content)))
                       (fmul (double (2 / 10)) learned)))) 3)
         \<and> 0 \<le> v \<and> v \<le> 1"
proof -
  from assms obtain learned where l: "compute_learned_score w content = Inr (learned, w')"
    and v: "v = composite (compute_recency_score fromisoformat now_us created_at)
                  (compute_risk_score risk_level) (compute_unresolved_score content) learned"
    by (auto simp: compute_importance_score_def Let_def split: sum.splits prod.splits)
  have "0 \<le> v \<and> v \<le> 1" unfolding v by (rule composite_bounds)
  moreover have "v = py_round (max (double 0) (min (double 1)
                    (fadd (fadd (fadd
                       (fmul (double (3 / 10)) (compute_recency_score fromisoformat now_us created_at))
                       (fmul (double (3 / 10)) (compute_risk_score risk_level)))
                       (fmul (double (2 / 10)) (compute_unresolved_score content)))
                       (fmul (double (2 / 10)) learned)))) 3"
    unfolding v composite_def Let_def RECENCY_WEIGHT_def RISK_LEVEL_WEIGHT_def
      UNRESOLVED_ACTION_WEIGHT_def LEARNED_WEIGHT_def by (rule refl)
  ultimately show ?thesis using l by blast
qed

lemma risk_critical: "compute_risk_score ''critical'' = double 1"
proof -
  have "strip (lower ''critical'') = ''critical''" by code_simp
  then show ?thesis by (simp add: compute_risk_score_def RISK_LEVEL_SCORES_def)
qed

lemma risk_low: "compute_risk_score ''low'' = double (2 / 10)"
proof -
  have "strip (lower ''low'') = ''low''" by code_simp
  then show ?thesis by (simp add: compute_risk_score_def RISK_LEVEL_SCORES_def)
qed

lemma unresolved_one: "compute_unresolved_score ''Pending'' = double (5 / 10)"
proof -
  have "length (filter (\<lambda>kw. contains kw (lower ''Pending'')) UNRESOLVED_KEYWORDS) = 1"
    by code_simp
  then show ?thesis by (simp add: compute_unresolved_score_def)
qed

lemma composite_half:
  "composite (double (1 / 2)) (double 1) (double (1 / 2)) (double (1 / 2)) = double (13 / 20)"
  using composite_example by simp

lemma score_unconfigured:
  "compute_importance_score (\<lambda>s. None) 0 unconfigured ''Pending'' ''critical'' NoTimestamp
     = Inr (double (13 / 20), unconfigured)"
  by (simp add: compute_importance_score_def compute_learned_score_def get_supabase_def
      unconfigured_def compute_recency_score_def parse_created_at_def risk_critical unresolved_one
      composite_half)

theorem score_bounds_witness:
  "compute_importance_score (\<lambda>s. None) 0 unconfigured ''Pending'' ''critical'' NoTimestamp
     = Inr (double (13 / 20), unconfigured)
   \<and> 0 \<le> double (13 / 20) \<and> double (13 / 20) \<le> 1"
  using score_bounds [OF score_unconfigured] score_unconfigured by simp

section \<open>Monotonicity\<close>

lemma recency_of_age_antimono: "a \<le> b \<Longrightarrow> recency_of_age b \<le> recency_of_age a"
  by (auto simp: recency_of_age_def intro!: double_mono)

lemma instant_made_aware:
  "instant_us (if utcoffset_us dt = None then dt\<lparr>utcoffset_us := Some 0\<rparr> else dt) = instant_us dt"
  by (simp add: instant_us_def)

lemma recency_mono:
  assumes "parse_created_at fromisoformat t1 = Some d1"
    and "parse_created_at fromisoformat t2 = Some d2"
    and "instant_us d1 \<le> instant_us d2"
  shows "compute_recency_score fromisoformat now_us t1 \<le> compute_recency_score fromisoformat now_us t2"
proof -
  have "fdiv (real_of_int (now_us - instant_us d2)) 1000000
        \<le> fdiv (real_of_int (now_us - instant_us d1)) 1000000"
    using assms(3) by (intro fdiv_mono_left) simp_all
  then have "fdiv (fdiv (real_of_int (now_us - instant_us d2)) 1000000) 3600
        \<le> fdiv (fdiv (real_of_int (now_us - instant_us d1)) 1000000) 3600"
    by (rule fdiv_mono_left [rotated]) simp
  then have "max 0 (fdiv (fdiv (real_of_int (now_us - instant_us d2)) 1000000) 3600)
        \<le> max 0 (fdiv (fdiv (real_of_int (now_us - instant_us d1)) 1000000) 3600)"
    by (simp add: max_def)
  then show ?thesis
    using assms(1) assms(2)
    by (simp only: compute_recency_score_def option.case Let_def instant_made_aware
        recency_of_age_antimono)
qed

text \<open>
  C8 (score monotonicity). For the same surroundings, content and timestamp, hence the same
  learned signal, the scorer either returns for both risk levels, and then the score for
  \<open>critical\<close> is at least the score for \<open>low\<close>, or it raises the same exception for
  both. For two timestamps that stand for datetimes, with the same clock reading, the later
  one has a recency component at least as large as the earlier one.
\<close>

theorem score_monotone:
  "((\<exists>a b w'. compute_importance_score fromisoformat now_us w content ''critical'' created_at = Inr (a, w')
        \<and> compute_importance_score fromisoformat now_us w content ''low'' created_at = Inr (b, w')
        \<and> b \<le> a)
    \<or> (\<exists>err. compute_importance_score fromisoformat now_us w content ''critical'' created_at = Inl err
        \<and> compute_importance_score fromisoformat now_us w content ''low'' created_at = Inl err))
   \<and> (parse_created_at fromisoformat t1 = Some d1 \<longrightarrow> parse_created_at fromisoformat t2 = Some d2
        \<longrightarrow> instant_us d1 \<le> instant_us d2
        \<longrightarrow> compute_recency_score fromisoformat now_us t1 \<le> compute_recency_score fromisoformat now_us t2)"
proof
  show "(\<exists>a b w'. compute_importance_score fromisoformat now_us w content ''critical'' created_at = Inr (a, w')
        \<and> compute_importance_score fromisoformat now_us w content ''low'' created_at = Inr (b, w')
        \<and> b \<le> a)
    \<or> (\<exists>err. compute_importance_score fromisoformat now_us w content ''critical'' created_at = Inl err
        \<and> compute_importance_score fromisoformat now_us w content ''low'' created_at = Inl err)"
  proof (cases "compute_learned_score w content")
    case (Inl err)
    then show ?thesis by (simp add: compute_importance_score_def)
  next
    case (Inr p)
    obtain learned w' where p: "p = (learned, w')" by (cases p)
    have "double (2 / 10) \<le> double 1" by (rule double_mono) simp
    then have "composite r (double (2 / 10)) u learned \<le> composite r (double 1) u learned" for r u
      by (rule composite_mono_risk)
    then show ?thesis
      using Inr p by (simp add: compute_importance_score_def risk_low risk_critical)
  qed
next
  show "parse_created_at fromisoformat t1 = Some d1 \<longrightarrow> parse_created_at fromisoformat t2 = Some d2
        \<longrightarrow> instant_us d1 \<le> instant_us d2
        \<longrightarrow> compute_recency_score fromisoformat now_us t1 \<le> compute_recency_score fromisoformat now_us t2"
    using recency_mono by blast
qed

lemma iso_replaced: "replace ''Z'' ''+00:00'' ''2024-01-05T04:00:00Z'' = ''2024-01-05T04:00:00+00:00''"
  by code_simp

theorem score_monotone_witness:
  "parse_created_at (\<lambda>s. if s = ''2024-01-05T04:00:00+00:00''
        then Some \<lparr>wall_us = 360000000000, utcoffset_us = Some 0\<rparr> else None)
      (Datetime \<lparr>wall_us = 0, utcoffset_us = None\<rparr>) = Some \<lparr>wall_us = 0, utcoffset_us = None\<rparr>
   \<and> parse_created_at (\<lambda>s. if s = ''2024-01-05T04:00:00+00:00''
        then Some \<lparr>wall_us = 360000000000, utcoffset_us = Some 0\<rparr> else None)
      (IsoString ''2024-01-05T04:00:00Z'') = Some \<lparr>wall_us = 360000000000, utcoffset_us = Some 0\<rparr>
   \<and> instant_us \<lparr>wall_us = 0, utcoffset_us = None\<rparr>
        \<le> instant_us \<lparr>wall_us = 360000000000, utcoffset_us = Some 0\<rparr>
   \<and> compute_recency_score (\<lambda>s. if s = ''2024-01-05T04:00:00+00:00''
        then Some \<lparr>wall_us = 360000000000, utcoffset_us = Some 0\<rparr> else None)
      396000000000 (Datetime \<lparr>wall_us = 0, utcoffset_us = None\<rparr>)
      \<le> compute_recency_score (\<lambda>s. if s = ''2024-01-05T04:00:00+00:00''
        then Some \<lparr>wall_us = 360000000000, utcoffset_us = Some 0\<rparr> else None)
      396000000000 (IsoString ''2024-01-05T04:00:00Z'')"
proof -
  let ?fi = "\<lambda>s. if s = ''2024-01-05T04:00:00+00:00''
        then Some \<lparr>wall_us = 360000000000, utcoffset_us = Some 0\<rparr> else None"
  have h1: "parse_created_at ?fi (Datetime \<lparr>wall_us = 0, utcoffset_us = None\<rparr>)
            = Some \<lparr>wall_us = 0, utcoffset_us = None\<rparr>"
    by (simp add: parse_created_at_def)
  have h2: "parse_created_at ?fi (IsoString ''2024-01-05T04:00:00Z'')
            = Some \<lparr>wall_us = 360000000000, utcoffset_us = Some 0\<rparr>"
    by (simp add: parse_created_at_def iso_replaced)
  have h3: "instant_us \<lparr>wall_us = 0, utcoffset_us = None\<rparr>
        \<le> instant_us \<lparr>wall_us = 360000000000, utcoffset_us = Some 0\<rparr>"
    by (simp add: instant_us_def)
  show ?thesis
    using h1 h2 h3
      score_monotone [of ?fi 396000000000 unconfigured "''pending kidney review''" NoTimestamp
        "Datetime \<lparr>wall_us = 0, utcoffset_us = None\<rparr>" "\<lparr>wall_us = 0, utcoffset_us = None\<rparr>"
        "IsoString ''2024-01-05T04:00:00Z''" "\<lparr>wall_us = 360000000000, utcoffset_us = Some 0\<rparr>"]
    by blast
qed

section \<open>The unresolved-action signal\<close>

lemma contains_iff: "contains kw s \<longleftrightarrow> (\<exists>ps ss. s = ps @ kw @ ss)"
proof (induction s)
  case Nil
  then show ?case by simp
next
  case (Cons c cs)
  have "(\<exists>ps ss. c # cs = ps @ kw @ ss) \<longleftrightarrow> (\<exists>ss. c # cs = kw @ ss) \<or> (\<exists>ps ss. cs = ps @ kw @ ss)"
    by (auto simp: Cons_eq_append_conv)
  with Cons show ?case by (auto simp: prefix_def)
qed

lemma keywords_distinct: "distinct UNRESOLVED_KEYWORDS"
  by (simp add: UNRESOLVED_KEYWORDS_def)

lemma keywords_plain:
  "kw \<in> set UNRESOLVED_KEYWORDS \<Longrightarrow> k \<in> set kw
   \<Longrightarrow> (CHR ''a'' \<le> k \<and> k \<le> CHR ''z'') \<or> k = CHR '' '' \<or> k = CHR ''-''"
  by (auto simp: UNRESOLVED_KEYWORDS_def)

lemma of_char_less_256: "of_char (c::char) < (256::nat)"
  by (cases c) simp

lemma lower_char_eq_iff:
  assumes "(CHR ''a'' \<le> k \<and> k \<le> CHR ''z'') \<or> k = CHR '' '' \<or> k = CHR ''-''"
  shows "lower_char c = k \<longleftrightarrow> letter_or_capital k c"
proof -
  have c: "of_char c < (256::nat)" and k: "of_char k < (256::nat)"
    by (rule of_char_less_256)+
  have eq: "c = k \<longleftrightarrow> (of_char c :: nat) = of_char k" by simp
  have up: "char_of (of_char c + (32::nat)) = k \<longleftrightarrow> (of_char c + 32) mod 256 = (of_char k :: nat)"
    by (simp add: char_of_eq_iff take_bit_eq_mod)
  show ?thesis
    using assms c k
    unfolding lower_char_def is_upper_def letter_or_capital_def eq less_eq_char_def
    by (auto simp: up) 
qed

lemma lower_eq_iff:
  assumes "\<forall>k \<in> set kw. (CHR ''a'' \<le> k \<and> k \<le> CHR ''z'') \<or> k = CHR '' '' \<or> k = CHR ''-''"
  shows "lower mid = kw \<longleftrightarrow> list_all2 letter_or_capital kw mid"
  using assms
proof (induction kw arbitrary: mid)
  case Nil
  then show ?case by (simp add: lower_def)
next
  case (Cons k ks)
  show ?case
  proof (cases mid)
    case Nil
    then show ?thesis by (simp add: lower_def)
  next
    case (Cons c cs)
    have "lower cs = ks \<longleftrightarrow> list_all2 letter_or_capital ks cs"
      using Cons.IH Cons.prems by simp
    moreover have "lower_char c = k \<longleftrightarrow> letter_or_capital k c"
      using Cons.prems by (intro lower_char_eq_iff) simp
    ultimately show ?thesis using Cons by (simp add: lower_def)
  qed
qed

lemma occurs_iff:
  assumes "kw \<in> set UNRESOLVED_KEYWORDS"
  shows "contains kw (lower content) \<longleftrightarrow> occurs_ignoring_case kw content"
proof -
  have plain: "\<forall>k \<in> set kw. (CHR ''a'' \<le> k \<and> k \<le> CHR ''z'') \<or> k = CHR '' '' \<or> k = CHR ''-''"
    using keywords_plain [OF assms] by blast
  have "(\<exists>ps ss. lower content = ps @ kw @ ss)
        \<longleftrightarrow> (\<exists>ps mid ss. content = ps @ mid @ ss \<and> lower mid = kw)"
  proof
    assume "\<exists>ps ss. lower content = ps @ kw @ ss"
    then obtain ps ss where "map lower_char content = ps @ kw @ ss" by (auto simp: lower_def)
    then have "\<exists>us vs. content = us @ vs \<and> ps = map lower_char us \<and> kw @ ss = map lower_char vs"
      by (simp only: map_eq_append_conv)
    then obtain us vs where c: "content = us @ vs" and "kw @ ss = map lower_char vs" by blast
    then have "\<exists>mid ws. vs = mid @ ws \<and> kw = map lower_char mid \<and> ss = map lower_char ws"
      by (simp only: append_eq_map_conv)
    then obtain mid ws where "vs = mid @ ws" and "map lower_char mid = kw" by auto
    then show "\<exists>ps mid ss. content = ps @ mid @ ss \<and> lower mid = kw"
      using c by (auto simp: lower_def)
  next
    assume "\<exists>ps mid ss. content = ps @ mid @ ss \<and> lower mid = kw"
    then obtain ps mid ss where "content = ps @ mid @ ss" and "lower mid = kw" by blast
    then have "lower content = lower ps @ kw @ lower ss" by (auto simp: lower_def)
    then show "\<exists>ps ss. lower content = ps @ kw @ ss" by blast
  qed
  then show ?thesis
    unfolding contains_iff occurs_ignoring_case_def using lower_eq_iff [OF plain] by simp
qed

lemma score_of_count:
  "(if 3 \<le> (n::nat) then double 1 else if 2 \<le> n then double (8 / 10)
    else if 1 \<le> n then double (5 / 10) else double 0)
   = (if n = 0 then double 0 else if n = 1 then double (5 / 10)
      else if n = 2 then double (8 / 10) else double 1)"
  by auto

text \<open>
  Occurrences are not what the code counts. In \<open>Pending, pending, PENDING\<close> the keywords
  of the fixed set have three occurrences, all of \<open>pending\<close>, and the score is 0.5,
  not the 1.0 that three matches would give.
\<close>

theorem unresolved_counterexample:
  "sum_list (map (\<lambda>kw. occurrences kw (lower ''Pending, pending, PENDING'')) UNRESOLVED_KEYWORDS) = 3
   \<and> compute_unresolved_score ''Pending, pending, PENDING'' = 1 / 2
   \<and> compute_unresolved_score ''Pending, pending, PENDING'' \<noteq> 1"
proof -
  have a: "sum_list (map (\<lambda>kw. occurrences kw (lower ''Pending, pending, PENDING'')) UNRESOLVED_KEYWORDS) = 3"
    by code_simp
  have "length (filter (\<lambda>kw. contains kw (lower ''Pending, pending, PENDING'')) UNRESOLVED_KEYWORDS) = 1"
    by code_simp
  then have "compute_unresolved_score ''Pending, pending, PENDING'' = double (5 / 10)"
    by (simp add: compute_unresolved_score_def)
  then have b: "compute_unresolved_score ''Pending, pending, PENDING'' = 1 / 2"
    using double_half by simp
  show ?thesis using a b by simp
qed

text \<open>
  C9 (unresolved-action signal), as the code has it. The count is the number of keywords of
  the fixed set that occur in the content at least once, regardless of case, as a substring:
  each keyword counts once, however often it occurs. The score is 0 for no such keyword, 0.5
  for one, 0.8 for two and 1 for three or more; empty content scores 0.
\<close>

theorem unresolved_score_table:
  "compute_unresolved_score content =
     (let n = card {kw \<in> set UNRESOLVED_KEYWORDS. occurs_ignoring_case kw content}
      in if n = 0 then double 0 else if n = 1 then double (5 / 10)
         else if n = 2 then double (8 / 10) else double 1)"
proof -
  let ?K = "{kw \<in> set UNRESOLVED_KEYWORDS. occurs_ignoring_case kw content}"
  have cnt: "length (filter (\<lambda>kw. contains kw (lower content)) UNRESOLVED_KEYWORDS) = card ?K"
  proof -
    have "{x. contains x (lower content)} \<inter> set UNRESOLVED_KEYWORDS = ?K"
      using occurs_iff by blast
    then show ?thesis
      using distinct_length_filter [OF keywords_distinct, of "\<lambda>kw. contains kw (lower content)"]
      by simp
  qed
  show ?thesis
  proof (cases "content = []")
    case True
    have "\<not> occurs_ignoring_case kw []" if "kw \<in> set UNRESOLVED_KEYWORDS" for kw
      using that by (auto simp: occurs_ignoring_case_def UNRESOLVED_KEYWORDS_def)
    then have "?K = {}" using True by blast
    with True show ?thesis by (simp add: compute_unresolved_score_def)
  next
    case False
    then show ?thesis
      unfolding compute_unresolved_score_def Let_def cnt by (simp only: score_of_count if_False)
  qed
qed

section \<open>Degradation of the learned signal\<close>

text \<open>
  When no client is available (\<open>_get_supabase\<close> returns \<open>None\<close>), when the query
  raises, or when it returns no rows, the scorer returns the composite score with the learned
  component at 0.5.
\<close>

lemma degradation_cases:
  assumes "get_supabase w = Inr (None, w')
           \<or> (\<exists>c. get_supabase w = Inr (Some c, w')
                  \<and> ((\<exists>msg. execute c = QueryRaises msg) \<or> execute c = QueryData []))"
  shows "compute_importance_score fromisoformat now_us w content risk_level created_at
         = Inr (composite (compute_recency_score fromisoformat now_us created_at)
                  (compute_risk_score risk_level) (compute_unresolved_score content) (double (5 / 10)), w')"
proof -
  have "compute_learned_score w content = Inr (double (5 / 10), w')"
    using assms
    by (auto simp: compute_learned_score_def query_learned_score_def Let_def)
  then show ?thesis
    by (simp add: compute_importance_score_def)
qed

text \<open>
  C10 (graceful degradation) fails when the client cannot be created. With the URL and the
  key configured and no client cached, \<open>_get_supabase\<close> calls \<open>create_client\<close>;
  \<open>_compute_learned_score\<close> makes that call before it enters its \<open>try\<close> block, so an
  exception of \<open>create_client\<close> leaves the scorer: no score is returned.
\<close>

theorem degradation_missed:
  "compute_importance_score (\<lambda>s. None) 0 misconfigured ''pending kidney review'' ''high'' NoTimestamp
   = Inl (LibraryError ''Invalid URL'')"
  by (simp add: compute_importance_score_def compute_learned_score_def get_supabase_def
      misconfigured_def)

section \<open>Matches lie in the text\<close>

lemma map_of_dict_set: "map_of (dict_set k v d) = (map_of d)(k \<mapsto> v)"
  by (induction d) (auto simp: fun_eq_iff)

lemma set_dict_set: "set (dict_set k v d) \<subseteq> insert (k, v) (set d)"
  by (induction d) (auto split: if_splits)

lemma backtrack_Some:
  "backtrack k i lo n = Some e \<Longrightarrow> \<exists>j. lo \<le> j \<and> j \<le> n \<and> k (i + j) = Some e"
proof (induction n)
  case 0
  then show ?case by (auto split: if_splits)
next
  case (Suc n)
  show ?case
  proof (cases "k (i + Suc n)")
    case None
    with Suc.prems have "backtrack k i lo n = Some e" by (auto split: if_splits)
    from Suc.IH [OF this] show ?thesis by (meson le_SucI)
  next
    case (Some e')
    with Suc.prems have "\<not> Suc n < lo" and "e' = e" by (auto split: if_splits)
    with Some show ?thesis by (intro exI [of _ "Suc n"]) simp
  qed
qed

lemma count_run_bound: "i \<le> length t \<Longrightarrow> i + count_run ic a t i hi \<le> length t"
proof -
  assume h: "i \<le> length t"
  have "length (takeWhile (atom_matches ic a) (drop i t)) \<le> length (drop i t)"
    by (rule length_takeWhile_le)
  then have "count_run ic a t i hi \<le> length t - i"
    by (cases hi) (simp_all add: count_run_def Let_def)
  with h show ?thesis by simp
qed

lemma match_here_bounds:
  "match_here r ic t i = Some e \<Longrightarrow> i \<le> length t \<Longrightarrow> i + min_len r \<le> e \<and> e \<le> length t"
proof (induction r arbitrary: i e)
  case Nil
  then show ?case by (simp add: min_len_def)
next
  case (Cons x r)
  show ?case
  proof (cases x)
    case (One a)
    with Cons.prems have m: "match_here r ic t (Suc i) = Some e" and b: "i < length t"
      by (auto split: if_splits)
    from Cons.IH [OF m] b One show ?thesis by (simp add: min_len_def)
  next
    case Boundary
    with Cons.prems have m: "match_here r ic t i = Some e"
      by (auto split: if_splits)
    from Cons.IH [OF m] Cons.prems(2) Boundary show ?thesis by (simp add: min_len_def)
  next
    case (Repeat a lo hi)
    with Cons.prems have "backtrack (match_here r ic t) i lo (count_run ic a t i hi) = Some e"
      by simp
    from backtrack_Some [OF this] obtain j where
      j: "lo \<le> j" "j \<le> count_run ic a t i hi" and m: "match_here r ic t (i + j) = Some e"
      by blast
    have "i + j \<le> length t"
      using count_run_bound [OF Cons.prems(2), of ic a hi] j(2) by simp
    from Cons.IH [OF m this] j(1) Repeat show ?thesis by (simp add: min_len_def)
  qed
qed

lemma finditer_from_spans:
  "(s, e) \<in> set (finditer_from p t i) \<Longrightarrow> s + min_len (snd p) \<le> e \<and> e \<le> length t"
proof (induction p t i rule: finditer_from.induct)
  case (1 p t i)
  show ?case
  proof (cases "length t < i")
    case True
    with "1.prems" show ?thesis by (simp add: finditer_from.simps [of p t i])
  next
    case False
    show ?thesis
    proof (cases "match_here (snd p) (fst p) t i")
      case None
      with False "1.prems" have "(s, e) \<in> set (finditer_from p t (Suc i))"
        by (simp add: finditer_from.simps [of p t i])
      with "1.IH"(1) False None show ?thesis by blast
    next
      case (Some e0)
      with False "1.prems" have
        "(s, e) = (i, e0) \<or> (s, e) \<in> set (finditer_from p t (if i < e0 then e0 else Suc i))"
        by (simp add: finditer_from.simps [of p t i])
      then show ?thesis
      proof
        assume "(s, e) = (i, e0)"
        with Some False match_here_bounds [of "snd p" "fst p" t i e0] show ?thesis by simp
      next
        assume "(s, e) \<in> set (finditer_from p t (if i < e0 then e0 else Suc i))"
        with "1.IH"(2) False Some show ?thesis by blast
      qed
    qed
  qed
qed

lemma patterns_consume: "\<forall>(ty, p) \<in> set PATTERNS. 1 \<le> min_len (snd p)"
  by (simp add: PATTERNS_def min_len_def sg_nric_def sg_mobile_def sg_landline_def sg_prefixed_def
      mrn_def email_def credit_card_def ipv4_def url_def date_slashed_def date_iso_def)

lemma collect_matches_spans:
  assumes "(s, e, ty, g) \<in> set (collect_matches text)"
  shows "s < e \<and> e \<le> length text \<and> g = take (e - s) (drop s text) \<and> ty \<in> entity_types"
proof -
  from assms obtain p where p: "(ty, p) \<in> set PATTERNS" and m: "(s, e) \<in> set (finditer p text)"
    and g: "g = take (e - s) (drop s text)"
    by (auto simp: collect_matches_def)
  from finditer_from_spans [of s e p "text" 0] m have "s + min_len (snd p) \<le> e \<and> e \<le> length text"
    by (simp add: finditer_def)
  moreover from patterns_consume p have "1 \<le> min_len (snd p)" by blast
  ultimately show ?thesis using g p by (force simp: entity_types_def)
qed

lemma set_sort_desc: "set (sort_desc ms) = set ms"
  by (simp add: sort_desc_def)

lemma sort_desc_sorted: "sorted_wrt (\<lambda>a b. fst b \<le> fst a) (sort_desc ms)"
proof -
  have "sorted (map (\<lambda>m. - int (fst m)) (sort_desc ms))"
    by (simp add: sort_desc_def)
  then show ?thesis by (simp add: sorted_map)
qed

lemma sorted_wrt_drop_middle: "sorted_wrt R (xs @ y # ys) \<Longrightarrow> sorted_wrt R (xs @ ys)"
  by (auto simp: sorted_wrt_append)

lemma dedup_sorted:
  "sorted_wrt R (acc @ ms) \<Longrightarrow> sorted_wrt R (dedup acc ms)"
proof (induction ms arbitrary: acc)
  case Nil
  then show ?case by simp
next
  case (Cons m ms)
  show ?case
  proof (cases "list_ex (overlaps m) acc")
    case True
    from Cons.prems have "sorted_wrt R (acc @ ms)" by (rule sorted_wrt_drop_middle)
    with Cons.IH True show ?thesis by simp
  next
    case False
    from Cons.prems have "sorted_wrt R ((acc @ [m]) @ ms)" by simp
    with Cons.IH False show ?thesis by simp
  qed
qed

lemma set_dedup: "set (dedup acc ms) \<subseteq> set acc \<union> set ms"
proof (induction ms arbitrary: acc)
  case Nil
  then show ?case by simp
next
  case (Cons m ms)
  from Cons.IH [of "if list_ex (overlaps m) acc then acc else acc @ [m]"]
  show ?case by (auto split: if_splits)
qed

lemma filtered_sorted: "sorted_wrt (\<lambda>a b. fst b \<le> fst a) (filtered_spans ms)"
  unfolding filtered_spans_def by (rule dedup_sorted) (simp add: sort_desc_sorted)

lemma set_filtered: "set (filtered_spans ms) \<subseteq> set ms"
  using set_dedup [of "[]" "sort_desc ms"] by (simp add: filtered_spans_def set_sort_desc)

section \<open>The redacted text as literals and placeholders\<close>

lemma render_append: "render f (cs @ ds) = render f cs @ render f ds"
  by (simp add: render_def)

lemma add_forward_result: "map_of (forward (snd (add m g ty))) g = Some (fst (add m g ty))"
  by (cases "map_of (forward m) g") (simp_all add: add_def Let_def map_of_dict_set)

lemma add_forward_keeps:
  "map_of (forward m) g = Some p \<Longrightarrow> map_of (forward (snd (add m g' ty'))) g = Some p"
  by (cases "map_of (forward m) g'") (auto simp: add_def Let_def map_of_dict_set)

lemma register_forward_keeps:
  "map_of (forward m) g = Some p \<Longrightarrow> map_of (forward (register_all ks m)) g = Some p"
proof (induction ks arbitrary: m)
  case Nil
  then show ?case by simp
next
  case (Cons x ks)
  obtain s e ty g' where x: "x = (s, e, ty, g')" by (cases x)
  from Cons.prems have "map_of (forward (snd (add m g' ty))) g = Some p"
    by (rule add_forward_keeps)
  from Cons.IH [OF this] x show ?case by simp
qed

lemma substitute_map: "snd (substitute ks r m) = register_all ks m"
proof (induction ks arbitrary: r m)
  case Nil
  then show ?case by simp
next
  case (Cons x ks)
  obtain s e ty g where x: "x = (s, e, ty, g)" by (cases x)
  show ?case using Cons.IH by (simp add: x split_def Let_def)
qed

lemma substitute_chunks:
  "wellplaced t b ks \<Longrightarrow> b \<le> length t \<Longrightarrow>
   fst (substitute ks (take b t @ r) m)
     = render (placeholder_of (register_all ks m)) (chunks t b ks) @ r"
proof (induction ks arbitrary: b r m)
  case Nil
  then show ?case by (simp add: render_def)
next
  case (Cons x ks)
  obtain s e ty g where x: "x = (s, e, ty, g)" by (cases x)
  obtain p m1 where a: "add m g ty = (p, m1)" by (cases "add m g ty")
  from Cons.prems x have se: "s \<le> e" and eb: "e \<le> b" and wp: "wellplaced t s ks" by simp_all
  have sl: "s \<le> length t" using se eb Cons.prems(2) by simp
  have t1: "take s (take b t @ r) = take s t"
    using se eb Cons.prems(2) by (simp add: min_def)
  have t2: "drop e (take b t @ r) = take (b - e) (drop e t) @ r"
    using eb Cons.prems(2) by (simp add: drop_take)
  have "map_of (forward m1) g = Some p"
    using add_forward_result [of m g ty] a by simp
  then have "map_of (forward (register_all ks m1)) g = Some p"
    by (rule register_forward_keeps)
  then have ph: "placeholder_of (register_all ks m1) g = p"
    by (simp add: placeholder_of_def)
  have "substitute (x # ks) (take b t @ r) m
        = substitute ks (take s (take b t @ r) @ p @ drop e (take b t @ r)) m1"
    by (simp add: x a del: take_append drop_append)
  then have "fst (substitute (x # ks) (take b t @ r) m)
        = fst (substitute ks (take s t @ (p @ take (b - e) (drop e t) @ r)) m1)"
    by (simp only: t1 t2 append_assoc)
  also have "\<dots> = render (placeholder_of (register_all ks m1)) (chunks t s ks)
                   @ (p @ take (b - e) (drop e t) @ r)"
    by (rule Cons.IH [OF wp sl])
  also have "\<dots> = render (placeholder_of (register_all (x # ks) m)) (chunks t b (x # ks)) @ r"
    by (simp add: x a render_append) (simp add: render_def ph)
  finally show ?case .
qed

lemma render_original:
  "wellplaced t b ks \<Longrightarrow> b \<le> length t \<Longrightarrow> render (\<lambda>g. g) (chunks t b ks) = take b t"
proof (induction ks arbitrary: b)
  case Nil
  then show ?case by (simp add: render_def)
next
  case (Cons x ks)
  obtain s e ty g where x: "x = (s, e, ty, g)" by (cases x)
  from Cons.prems x have se: "s \<le> e" and eb: "e \<le> b" and g: "g = take (e - s) (drop s t)"
    and wp: "wellplaced t s ks" by simp_all
  have sl: "s \<le> length t" using se eb Cons.prems(2) by simp
  have "take s t @ take (e - s) (drop s t) = take e t"
    using se by (metis le_add_diff_inverse take_add)
  moreover have "take e t @ take (b - e) (drop e t) = take b t"
    using eb by (metis le_add_diff_inverse take_add)
  ultimately have "take s t @ g @ take (b - e) (drop e t) = take b t"
    using g by (metis append.assoc)
  then show ?case
    using Cons.IH [OF wp sl] by (simp add: x render_append) (simp add: render_def)
qed

lemma wellplaced_sorted:
  assumes "sorted_wrt (\<lambda>a b. fst b \<le> fst a) ks"
    and "sorted_wrt (\<lambda>a b. \<not> overlaps b a) ks"
    and "\<forall>(s, e, ty, g) \<in> set ks. s < e \<and> e \<le> b \<and> g = take (e - s) (drop s t)"
  shows "wellplaced t b ks"
  using assms
proof (induction ks arbitrary: b)
  case Nil
  then show ?case by simp
next
  case (Cons x ks)
  obtain s e ty g where x: "x = (s, e, ty, g)" by (cases x)
  have "\<forall>(s', e', ty', g') \<in> set ks. s' < e' \<and> e' \<le> s \<and> g' = take (e' - s') (drop s' t)"
  proof (clarify)
    fix s' e' ty' g'
    assume y: "(s', e', ty', g') \<in> set ks"
    from Cons.prems(1) x y have "s' \<le> s" by auto
    moreover from Cons.prems(2) x y have "\<not> overlaps (s', e', ty', g') (s, e, ty, g)" by auto
    moreover from Cons.prems(3) x have "s < e" by simp
    ultimately have "e' \<le> s" by (simp add: overlaps_def)
    with Cons.prems(3) y show "s' < e' \<and> e' \<le> s \<and> g' = take (e' - s') (drop s' t)" by auto
  qed
  moreover from Cons.prems have "sorted_wrt (\<lambda>a b. fst b \<le> fst a) ks"
    and "sorted_wrt (\<lambda>a b. \<not> overlaps b a) ks" by simp_all
  ultimately have "wellplaced t s ks" using Cons.IH by blast
  with Cons.prems(3) x show ?case by simp
qed

lemma filtered_wellplaced:
  "wellplaced text (length text) (filtered_spans (collect_matches text))"
proof (rule wellplaced_sorted)
  show "sorted_wrt (\<lambda>a b. fst b \<le> fst a) (filtered_spans (collect_matches text))"
    by (rule filtered_sorted)
  show "sorted_wrt (\<lambda>a b. \<not> overlaps b a) (filtered_spans (collect_matches text))"
    by (rule filtered_apart)
  show "\<forall>(s, e, ty, g) \<in> set (filtered_spans (collect_matches text)).
          s < e \<and> e \<le> length text \<and> g = take (e - s) (drop s text)"
    using set_filtered [of "collect_matches text"] collect_matches_spans [of _ _ _ _ "text"] by blast
qed

section \<open>Numbering of placeholders\<close>

lemma dict_set_fresh: "k \<notin> fst ` set d \<Longrightarrow> dict_set k v d = d @ [(k, v)]"
  by (induction d) auto

lemma first_encounters_snoc:
  "first_encounters (ks @ [(s, e, ty, g)]) =
     (if g \<in> fst ` set (first_encounters ks) then first_encounters ks
      else first_encounters ks @ [(g, ty)])"
proof (induction ks)
  case Nil
  then show ?case by simp
next
  case (Cons x ks)
  obtain s0 e0 ty0 g0 where x: "x = (s0, e0, ty0, g0)" by (cases x)
  show ?case using Cons.IH by (auto simp: x)
qed

lemma ordinal_old:
  assumes "g' \<in> fst ` set fe"
  shows "ordinal (fe @ [x]) ty' g' = ordinal fe ty' g'"
proof -
  from assms obtain y where "y \<in> set fe" and "\<not> (\<lambda>(g'', ty''). g'' \<noteq> g') y" by force
  then have "takeWhile (\<lambda>(g'', ty''). g'' \<noteq> g') (fe @ [x]) = takeWhile (\<lambda>(g'', ty''). g'' \<noteq> g') fe"
    by (rule takeWhile_append1)
  then show ?thesis by (simp add: ordinal_def)
qed

lemma ordinal_new:
  assumes "g \<notin> fst ` set fe"
  shows "ordinal (fe @ [(g, ty)]) ty g = Suc (length (filter (\<lambda>(g', ty'). ty' = ty) fe))"
proof -
  have "takeWhile (\<lambda>(g', ty'). g' \<noteq> g) (fe @ [(g, ty)]) = fe @ takeWhile (\<lambda>(g', ty'). g' \<noteq> g) [(g, ty)]"
    using assms by (intro takeWhile_append2) force
  then show ?thesis by (simp add: ordinal_def)
qed

lemma numbered_snoc:
  assumes "g \<notin> fst ` set fe"
  shows "numbered (fe @ [(g, ty)])
         = numbered fe @ [(g, placeholder ty (Suc (length (filter (\<lambda>(g', ty'). ty' = ty) fe))))]"
proof -
  have "map (\<lambda>(g', ty'). (g', placeholder ty' (ordinal (fe @ [(g, ty)]) ty' g'))) fe
        = map (\<lambda>(g', ty'). (g', placeholder ty' (ordinal fe ty' g'))) fe"
  proof (rule map_cong)
    fix x assume "x \<in> set fe"
    then have "fst x \<in> fst ` set fe" by simp
    then have "ordinal (fe @ [(g, ty)]) (snd x) (fst x) = ordinal fe (snd x) (fst x)"
      by (rule ordinal_old)
    then show "(\<lambda>(g', ty'). (g', placeholder ty' (ordinal (fe @ [(g, ty)]) ty' g'))) x
               = (\<lambda>(g', ty'). (g', placeholder ty' (ordinal fe ty' g'))) x"
      by (simp add: split_def)
  qed simp
  then show ?thesis using ordinal_new [OF assms] by (simp add: numbered_def)
qed

lemma fst_numbered: "fst ` set (numbered fe) = fst ` set fe"
  by (force simp: numbered_def)

lemma numbering_step:
  assumes "numbering_inv seen m"
  shows "numbering_inv (seen @ [(s, e, ty, g)]) (snd (add m g ty))"
proof (cases "g \<in> fst ` set (first_encounters seen)")
  case True
  then have "g \<in> fst ` set (forward m)"
    using assms by (simp add: numbering_inv_def fst_numbered)
  then obtain p where "map_of (forward m) g = Some p"
    by (metis map_of_eq_None_iff not_Some_eq)
  then have "snd (add m g ty) = m" by (simp add: add_def)
  with assms True show ?thesis by (simp add: numbering_inv_def first_encounters_snoc)
next
  case False
  let ?fe = "first_encounters seen"
  from False have nk: "g \<notin> fst ` set (forward m)"
    using assms by (simp add: numbering_inv_def fst_numbered)
  then have none: "map_of (forward m) g = None" by (simp add: map_of_eq_None_iff)
  have cnt: "count_of m ty = length (filter (\<lambda>(g', ty'). ty' = ty) ?fe)"
    using assms by (simp add: numbering_inv_def)
  have fw: "forward (snd (add m g ty)) = forward m @ [(g, placeholder ty (Suc (count_of m ty)))]"
    using none nk by (simp add: add_def Let_def count_of_def dict_set_fresh)
  have ec: "count_of (snd (add m g ty)) ty' = (if ty' = ty then Suc (count_of m ty) else count_of m ty')" for ty'
    using none by (simp add: add_def Let_def count_of_def map_of_dict_set)
  have "forward (snd (add m g ty)) = numbered (?fe @ [(g, ty)])"
    using fw assms cnt by (simp add: numbered_snoc [OF False] numbering_inv_def)
  moreover have "count_of (snd (add m g ty)) ty'
                 = length (filter (\<lambda>(g', ty''). ty'' = ty') (?fe @ [(g, ty)]))" for ty'
    using ec [of ty'] assms by (simp add: numbering_inv_def)
  ultimately show ?thesis using False by (simp add: numbering_inv_def first_encounters_snoc)
qed

lemma numbering_register:
  "numbering_inv seen m \<Longrightarrow> numbering_inv (seen @ ks) (register_all ks m)"
proof (induction ks arbitrary: seen m)
  case Nil
  then show ?case by simp
next
  case (Cons x ks)
  obtain s e ty g where x: "x = (s, e, ty, g)" by (cases x)
  from Cons.prems have "numbering_inv (seen @ [(s, e, ty, g)]) (snd (add m g ty))"
    by (rule numbering_step)
  from Cons.IH [OF this] show ?case by (simp add: x)
qed

lemma numbering_new_map: "numbering_inv [] (new_map uid)"
  by (simp add: numbering_inv_def new_map_def numbered_def count_of_def)

lemma redact_unfold:
  assumes "\<not> (text = [] \<or> (\<forall>c \<in> set text. is_space c))"
  shows "redact st uid text =
     (let ks = filtered_spans (collect_matches text);
          m = register_all ks (new_map uid)
      in (st(ident m \<mapsto> m), render (placeholder_of m) (chunks text (length text) ks), m))"
proof (cases "collect_matches text = []")
  case True
  then show ?thesis
    using assms
    by (simp add: redact_def strip_empty_iff filtered_spans_def sort_desc_def render_def Let_def
        new_map_def)
next
  case False
  let ?ks = "filtered_spans (collect_matches text)"
  have "fst (substitute ?ks (take (length text) text @ []) (new_map uid))
        = render (placeholder_of (register_all ?ks (new_map uid))) (chunks text (length text) ?ks) @ []"
    by (rule substitute_chunks [OF filtered_wellplaced]) simp
  then have "substitute ?ks text (new_map uid)
        = (render (placeholder_of (register_all ?ks (new_map uid))) (chunks text (length text) ?ks),
           register_all ?ks (new_map uid))"
    using substitute_map [of ?ks "text" "new_map uid"] by (simp add: prod_eq_iff)
  then show ?thesis
    using assms False by (auto simp: redact_def strip_empty_iff Let_def)
qed

text \<open>
  C2 (numbering), as the code has it. \<open>redact\<close> registers the kept spans in descending
  order of start, that is from the end of the text to its beginning. The map holds one
  placeholder for each distinct value: a value that comes up again gets the placeholder it
  already has and no new one is made. The placeholder of a value is \<open><CATEGORY_N>\<close>, where
  \<open>N\<close> is one more than the number of distinct values of that category that came up before
  it in this order; so within a category the ordinals increase from the last value of the
  text towards the first. Every kept span is replaced by the placeholder of its value.
\<close>

theorem numbering_by_encounter:
  assumes "redact st uid text = (st', redacted, m)"
    and "\<not> (text = [] \<or> (\<forall>c \<in> set text. is_space c))"
  shows "forward m = map (\<lambda>(g, ty). (g, placeholder ty
                          (ordinal (first_encounters (filtered_spans (collect_matches text))) ty g)))
                       (first_encounters (filtered_spans (collect_matches text)))
         \<and> total_entities m = length (first_encounters (filtered_spans (collect_matches text)))
         \<and> redacted = render (placeholder_of m)
                         (chunks text (length text) (filtered_spans (collect_matches text)))"
proof -
  let ?ks = "filtered_spans (collect_matches text)"
  define M where "M = register_all ?ks (new_map uid)"
  have "redact st uid text
        = (st(ident M \<mapsto> M), render (placeholder_of M) (chunks text (length text) ?ks), M)"
    using redact_unfold [OF assms(2), of st uid] by (simp add: Let_def M_def)
  with assms(1) have mM: "m = M"
    and rM: "redacted = render (placeholder_of M) (chunks text (length text) ?ks)"
    by auto
  have m: "m = register_all ?ks (new_map uid)" using mM by (simp add: M_def)
  have r: "redacted = render (placeholder_of m) (chunks text (length text) ?ks)"
    using rM mM by simp
  have "numbering_inv ([] @ ?ks) (register_all ?ks (new_map uid))"
    by (rule numbering_register [OF numbering_new_map])
  then have "forward m = numbered (first_encounters ?ks)"
    by (simp add: m numbering_inv_def)
  then show ?thesis using r by (simp add: numbered_def total_entities_def)
qed

text \<open>
  The numbering does not follow the order of first appearance in the text: of two phone
  numbers, the one that appears first gets the ordinal 2 and the one after it the ordinal 1.
\<close>

theorem numbering_counterexample:
  "snd (redact Map.empty ''u'' ''91234567 81234567'')
   = (''<PHONE_NUMBER_2> <PHONE_NUMBER_1>'',
      \<lparr>ident = ''u'',
       forward = [(''81234567'', ''<PHONE_NUMBER_1>''), (''91234567'', ''<PHONE_NUMBER_2>'')],
       reverse = [(''<PHONE_NUMBER_1>'', ''81234567''), (''<PHONE_NUMBER_2>'', ''91234567'')],
       entity_counts = [(''PHONE_NUMBER'', 2)]\<rparr>)"
  by code_simp

theorem numbering_by_encounter_witness:
  "redact Map.empty ''u'' ''91234567 81234567 81234567''
     = (fst (redact Map.empty ''u'' ''91234567 81234567 81234567''),
        ''<PHONE_NUMBER_2> <PHONE_NUMBER_1> <PHONE_NUMBER_1>'',
        \<lparr>ident = ''u'',
         forward = [(''81234567'', ''<PHONE_NUMBER_1>''), (''91234567'', ''<PHONE_NUMBER_2>'')],
         reverse = [(''<PHONE_NUMBER_1>'', ''81234567''), (''<PHONE_NUMBER_2>'', ''91234567'')],
         entity_counts = [(''PHONE_NUMBER'', 2)]\<rparr>)
   \<and> \<not> (''91234567 81234567 81234567'' = [] \<or> (\<forall>c \<in> set ''91234567 81234567 81234567''. is_space c))
   \<and> first_encounters (filtered_spans (collect_matches ''91234567 81234567 81234567''))
       = [(''81234567'', ''PHONE_NUMBER''), (''91234567'', ''PHONE_NUMBER'')]
   \<and> forward \<lparr>ident = ''u'',
         forward = [(''81234567'', ''<PHONE_NUMBER_1>''), (''91234567'', ''<PHONE_NUMBER_2>'')],
         reverse = [(''<PHONE_NUMBER_1>'', ''81234567''), (''<PHONE_NUMBER_2>'', ''91234567'')],
         entity_counts = [(''PHONE_NUMBER'', 2)]\<rparr>
       = map (\<lambda>(g, ty). (g, placeholder ty
                (ordinal (first_encounters (filtered_spans (collect_matches ''91234567 81234567 81234567''))) ty g)))
             (first_encounters (filtered_spans (collect_matches ''91234567 81234567 81234567'')))"
proof -
  let ?m = "\<lparr>ident = ''u'',
         forward = [(''81234567'', ''<PHONE_NUMBER_1>''), (''91234567'', ''<PHONE_NUMBER_2>'')],
         reverse = [(''<PHONE_NUMBER_1>'', ''81234567''), (''<PHONE_NUMBER_2>'', ''91234567'')],
         entity_counts = [(''PHONE_NUMBER'', 2)]\<rparr>"
  have "snd (redact Map.empty ''u'' ''91234567 81234567 81234567'')
        = (''<PHONE_NUMBER_2> <PHONE_NUMBER_1> <PHONE_NUMBER_1>'', ?m)"
    by code_simp
  then have h1: "redact Map.empty ''u'' ''91234567 81234567 81234567''
     = (fst (redact Map.empty ''u'' ''91234567 81234567 81234567''),
        ''<PHONE_NUMBER_2> <PHONE_NUMBER_1> <PHONE_NUMBER_1>'', ?m)"
    by (simp add: prod_eq_iff)
  have h2: "\<not> (''91234567 81234567 81234567'' = [] \<or> (\<forall>c \<in> set ''91234567 81234567 81234567''. is_space c))"
    by (simp add: is_space_def)
  have fe: "first_encounters (filtered_spans (collect_matches ''91234567 81234567 81234567''))
       = [(''81234567'', ''PHONE_NUMBER''), (''91234567'', ''PHONE_NUMBER'')]"
    by code_simp
  have c: "forward ?m = map (\<lambda>(g, ty). (g, placeholder ty
                (ordinal (first_encounters (filtered_spans (collect_matches ''91234567 81234567 81234567''))) ty g)))
             (first_encounters (filtered_spans (collect_matches ''91234567 81234567 81234567'')))"
    using numbering_by_encounter [OF h1 h2] by (rule conjunct1)
  show ?thesis
    by (intro conjI) (rule h1, rule h2, rule fe, rule c)
qed

section \<open>Restoring the original text\<close>

subsection \<open>Decimal digits\<close>

lemma digits_listed: "map (\<lambda>k. char_of (48 + k) :: char) [0..<10] = ''0123456789''"
  by (simp add: upt_rec [of _ 10] upt_rec [of _ "numeral _"] char_of_eq_iff take_bit_eq_mod)

lemma digit_char_cases:
  assumes "n < 10"
  shows "(char_of (48 + (n::nat)) :: char) \<in> set ''0123456789''"
proof -
  from assms have "n \<in> set [0..<10]" by simp
  then have "(char_of (48 + n) :: char) \<in> set (map (\<lambda>k. char_of (48 + k)) [0..<10])"
    by (simp only: set_map image_eqI)
  then show ?thesis by (simp only: digits_listed)
qed

lemma digit_char_inj:
  "a < 10 \<Longrightarrow> b < 10 \<Longrightarrow> (char_of (48 + a) :: char) = char_of (48 + b) \<Longrightarrow> a = (b::nat)"
  by (simp add: char_of_quasi_inj take_bit_eq_mod)

lemma str_nat_digits: "set (str_nat n) \<subseteq> set ''0123456789''"
proof (induction n rule: str_nat.induct)
  case (1 n)
  show ?case
  proof (cases "n < 10")
    case True
    then show ?thesis
      using digit_char_cases [of n] by (subst str_nat.simps) simp
  next
    case False
    have "n mod 10 < 10" by simp
    then have "(char_of (48 + n mod 10) :: char) \<in> set ''0123456789''"
      by (rule digit_char_cases)
    with False "1.IH" show ?thesis
      by (subst str_nat.simps) simp
  qed
qed

lemma str_nat_nonempty: "str_nat n \<noteq> []"
  by (subst str_nat.simps) simp

lemma str_nat_inj: "str_nat m = str_nat n \<Longrightarrow> m = n"
proof (induction m arbitrary: n rule: str_nat.induct)
  case (1 m)
  show ?case
  proof (cases "m < 10")
    case mt: True
    show ?thesis
    proof (cases "n < 10")
      case True
      with mt "1.prems" show ?thesis
        by (simp add: str_nat.simps [of m] str_nat.simps [of n] digit_char_inj)
    next
      case False
      with mt "1.prems" have "str_nat (n div 10) = []"
        by (simp add: str_nat.simps [of m] str_nat.simps [of n])
      with str_nat_nonempty show ?thesis by blast
    qed
  next
    case mf: False
    show ?thesis
    proof (cases "n < 10")
      case True
      with mf "1.prems" have "str_nat (m div 10) = []"
        by (simp add: str_nat.simps [of m] str_nat.simps [of n])
      with str_nat_nonempty show ?thesis by blast
    next
      case False
      with mf "1.prems" have a: "str_nat (m div 10) = str_nat (n div 10)"
        and b: "(char_of (48 + m mod 10) :: char) = char_of (48 + n mod 10)"
        by (simp_all add: str_nat.simps [of m] str_nat.simps [of n])
      from "1.IH" [OF mf a] have "m div 10 = n div 10" .
      moreover from b have "m mod 10 = n mod 10"
        by (intro digit_char_inj) simp_all
      ultimately show ?thesis by (metis div_mult_mod_eq)
    qed
  qed
qed

subsection \<open>Placeholders\<close>

lemma split_last_unique:
  assumes "xs @ a # ys = xs' @ a # ys'" and "a \<notin> set ys" and "a \<notin> set ys'"
  shows "xs = xs' \<and> ys = ys'"
proof -
  have "takeWhile (\<lambda>x. x \<noteq> a) (rev ys @ a # rev xs) = rev ys @ takeWhile (\<lambda>x. x \<noteq> a) (a # rev xs)"
    using assms(2) by (intro takeWhile_append2) auto
  then have "takeWhile (\<lambda>x. x \<noteq> a) (rev (xs @ a # ys)) = rev ys" by simp
  moreover have "takeWhile (\<lambda>x. x \<noteq> a) (rev ys' @ a # rev xs') = rev ys' @ takeWhile (\<lambda>x. x \<noteq> a) (a # rev xs')"
    using assms(3) by (intro takeWhile_append2) auto
  then have "takeWhile (\<lambda>x. x \<noteq> a) (rev (xs' @ a # ys')) = rev ys'" by simp
  ultimately have "ys = ys'" using assms(1) by simp
  with assms(1) show ?thesis by simp
qed

lemma placeholder_inj:
  assumes "placeholder t1 n1 = placeholder t2 n2"
  shows "t1 = t2 \<and> n1 = n2"
proof -
  have u1: "CHR ''_'' \<notin> set (str_nat n1)" and u2: "CHR ''_'' \<notin> set (str_nat n2)"
    using str_nat_digits [of n1] str_nat_digits [of n2] by auto
  from assms have "t1 @ CHR ''_'' # str_nat n1 = t2 @ CHR ''_'' # str_nat n2"
    by (simp add: placeholder_def)
  from split_last_unique [OF this u1 u2] show ?thesis by (auto dest: str_nat_inj)
qed

lemma entity_types_clean: "ty \<in> entity_types \<Longrightarrow> CHR ''<'' \<notin> set ty \<and> CHR ''>'' \<notin> set ty"
  by (auto simp: entity_types_def PATTERNS_def)

lemma placeholder_wf:
  assumes "CHR ''<'' \<notin> set ty" and "CHR ''>'' \<notin> set ty"
  shows "wf_ph (placeholder ty n)"
proof -
  have "CHR ''<'' \<notin> set (str_nat n)" and "CHR ''>'' \<notin> set (str_nat n)"
    using str_nat_digits [of n] by auto
  with assms show ?thesis
    unfolding wf_ph_def placeholder_def
    by (intro exI [of _ "ty @ ''_'' @ str_nat n"]) simp
qed

lemma wf_ph_not_clean: "wf_ph p \<Longrightarrow> \<not> clean p"
  by (auto simp: wf_ph_def clean_def)

subsection \<open>Replacement in a text of literals and placeholders\<close>

lemma render_cong:
  "(\<And>g. Hole g \<in> set cs \<Longrightarrow> f g = f' g) \<Longrightarrow> render f cs = render f' cs"
proof -
  assume h: "\<And>g. Hole g \<in> set cs \<Longrightarrow> f g = f' g"
  have "map (render_chunk f) cs = map (render_chunk f') cs"
  proof (rule map_cong)
    fix c assume "c \<in> set cs"
    with h show "render_chunk f c = render_chunk f' c" by (cases c) simp_all
  qed simp
  then show ?thesis unfolding render_def by (rule arg_cong)
qed

lemma contains_appendD:
  "\<not> contains p (a @ b) \<Longrightarrow> \<not> contains p a \<and> \<not> contains p b"
proof -
  assume h: "\<not> contains p (a @ b)"
  have "\<not> contains p a"
  proof
    assume "contains p a"
    then obtain ps ss where "a = ps @ p @ ss" unfolding contains_iff by blast
    then have "a @ b = ps @ p @ (ss @ b)" by simp
    then have "contains p (a @ b)" unfolding contains_iff by blast
    with h show False by simp
  qed
  moreover have "\<not> contains p b"
  proof
    assume "contains p b"
    then obtain ps ss where "b = ps @ p @ ss" unfolding contains_iff by blast
    then have "a @ b = (a @ ps) @ p @ ss" by simp
    then have "contains p (a @ b)" unfolding contains_iff by blast
    with h show False by simp
  qed
  ultimately show ?thesis by simp
qed

lemma contains_self: "contains p p"
  unfolding contains_iff by (intro exI [of _ "[]"]) simp

lemma replace_scan_absent:
  assumes "p \<noteq> []"
  shows "\<not> contains p l \<Longrightarrow> replace_scan p v l = l"
  by (induction l) simp_all

lemma replace_scan_lit:
  assumes "clean l" and "wf_ph p"
  shows "replace_scan p v (l @ rest) = l @ replace_scan p v rest"
  using assms(1)
proof (induction l)
  case Nil
  then show ?case by simp
next
  case (Cons c l)
  then have c: "c \<noteq> CHR ''<''" and l: "clean l" by (auto simp: clean_def)
  from assms(2) c have "\<not> prefix p (c # l @ rest)" by (auto simp: wf_ph_def)
  with Cons.IH [OF l] show ?case by simp
qed

lemma replace_scan_same: "p \<noteq> [] \<Longrightarrow> replace_scan p v (p @ rest) = v @ replace_scan p v rest"
  by (cases p) simp_all

lemma gt_inside:
  assumes "xs @ ''>'' @ us = ys @ ''>''" and "us \<noteq> []"
  shows "CHR ''>'' \<in> set ys"
proof -
  from assms(2) obtain us' u where us: "us = us' @ [u]" by (metis rev_exhaust)
  with assms(1) have "ys = xs @ ''>'' @ us'" by simp
  then show ?thesis by simp
qed

lemma wf_ph_not_prefix:
  assumes "wf_ph p" and "wf_ph q" and "p \<noteq> q"
  shows "\<not> prefix p (q @ rest)"
proof
  assume "prefix p (q @ rest)"
  then consider (a) "prefix p q" | (b) "prefix q p"
    by (auto simp: prefix_append)
  moreover from assms obtain bp bq where p: "p = CHR ''<'' # bp @ ''>''" and q: "q = CHR ''<'' # bq @ ''>''"
    and bp: "CHR ''>'' \<notin> set bp" and bq: "CHR ''>'' \<notin> set bq"
    by (auto simp: wf_ph_def)
  ultimately show False
  proof cases
    case a
    then obtain us where u: "q = p @ us" by (auto simp: prefix_def)
    with assms(3) have "us \<noteq> []" by auto
    moreover from u p q have "bp @ ''>'' @ us = bq @ ''>''" by simp
    ultimately have "CHR ''>'' \<in> set bq" by (rule gt_inside [rotated])
    with bq show False by simp
  next
    case b
    then obtain us where u: "p = q @ us" by (auto simp: prefix_def)
    with assms(3) have "us \<noteq> []" by auto
    moreover from u p q have "bq @ ''>'' @ us = bp @ ''>''" by simp
    ultimately have "CHR ''>'' \<in> set bp" by (rule gt_inside [rotated])
    with bp show False by simp
  qed
qed

lemma replace_scan_other:
  assumes "wf_ph p" and "wf_ph q" and "p \<noteq> q"
  shows "replace_scan p v (q @ rest) = q @ replace_scan p v rest"
proof -
  from assms(2) obtain bq where q: "q = CHR ''<'' # bq @ ''>''" and bq: "CHR ''<'' \<notin> set bq"
    by (auto simp: wf_ph_def)
  have np: "\<not> prefix p (CHR ''<'' # (bq @ ''>'') @ rest)"
    using wf_ph_not_prefix [OF assms, of rest] q by simp
  have "clean (bq @ ''>'')" using bq by (simp add: clean_def)
  then have "replace_scan p v ((bq @ ''>'') @ rest) = (bq @ ''>'') @ replace_scan p v rest"
    using assms(1) by (rule replace_scan_lit)
  with np show ?thesis by (simp add: q)
qed

text \<open>
  A placeholder that does not occur in a stretch of text does not begin in that stretch and
  run on into a placeholder that follows it: it would hold a second \<open><\<close>.
\<close>

lemma replace_scan_before_angle:
  assumes "wf_ph p"
  shows "\<not> contains p l \<Longrightarrow>
         replace_scan p v (l @ CHR ''<'' # rest) = l @ replace_scan p v (CHR ''<'' # rest)"
proof (induction l)
  case Nil
  then show ?case by simp
next
  case (Cons c l)
  from assms obtain bp where p: "p = CHR ''<'' # bp @ ''>''" and bp: "CHR ''<'' \<notin> set bp"
    by (auto simp: wf_ph_def)
  have np: "\<not> prefix p (c # l)" using Cons.prems by simp
  have nl: "\<not> contains p l" using Cons.prems by simp
  have "\<not> prefix p ((c # l) @ CHR ''<'' # rest)"
  proof
    assume "prefix p ((c # l) @ CHR ''<'' # rest)"
    then have "prefix p (c # l) \<or> (\<exists>us. p = (c # l) @ us \<and> prefix us (CHR ''<'' # rest))"
      by (simp only: prefix_append)
    with np obtain us where u: "p = (c # l) @ us" and "prefix us (CHR ''<'' # rest)" by blast
    with np have "us \<noteq> []" by auto
    with \<open>prefix us (CHR ''<'' # rest)\<close> obtain us' where "us = CHR ''<'' # us'"
      by (cases us) auto
    with u p have "bp @ ''>'' = l @ CHR ''<'' # us'" by simp
    then have "CHR ''<'' \<in> set (bp @ ''>'')" by simp
    with bp show False by simp
  qed
  with Cons.IH [OF nl] show ?case by simp
qed

lemma replace_render:
  assumes "wf_ph p"
    and "\<forall>g. Hole g \<in> set cs \<longrightarrow> f g = g \<or> wf_ph (f g)"
    and "\<not> contains p (l @ render (\<lambda>g. g) cs)"
  shows "replace_scan p v (l @ render f cs) = l @ render (\<lambda>g. subst (p, v) (f g)) cs"
  using assms(2) assms(3)
proof (induction cs arbitrary: l)
  case Nil
  have pne: "p \<noteq> []" using assms(1) by (auto simp: wf_ph_def)
  from Nil show ?case using replace_scan_absent [OF pne, of l v] by (simp add: render_def)
next
  case (Cons c cs)
  have pne: "p \<noteq> []" using assms(1) by (auto simp: wf_ph_def)
  have holes: "\<forall>g. Hole g \<in> set cs \<longrightarrow> f g = g \<or> wf_ph (f g)" using Cons.prems(1) by simp
  show ?case
  proof (cases c)
    case (Piece x)
    with Cons.prems(2) have "\<not> contains p ((l @ x) @ render (\<lambda>g. g) cs)" by (simp add: render_def)
    from Cons.IH [OF holes this] Piece show ?thesis by (simp add: render_def)
  next
    case (Hole g)
    with Cons.prems(2) have ng: "\<not> contains p ((l @ g) @ render (\<lambda>g. g) cs)"
      by (simp add: render_def)
    show ?thesis
    proof (cases "f g = g")
      case True
      have "\<not> contains p g" using contains_appendD [OF ng] contains_appendD [of p l g] by blast
      then have "g \<noteq> p" using contains_self by auto
      with Cons.IH [OF holes ng] Hole True show ?thesis by (simp add: render_def)
    next
      case False
      with Cons.prems(1) Hole have wq: "wf_ph (f g)" by simp
      then obtain tl_q where q: "f g = CHR ''<'' # tl_q" by (auto simp: wf_ph_def)
      have nl: "\<not> contains p l" using contains_appendD [OF ng] contains_appendD [of p l g] by blast
      have nr: "\<not> contains p ([] @ render (\<lambda>g. g) cs)" using contains_appendD [OF ng] by simp
      have ih: "replace_scan p v (render f cs) = render (\<lambda>g. subst (p, v) (f g)) cs"
        using Cons.IH [OF holes nr] by simp
      have "replace_scan p v (l @ f g @ render f cs) = l @ replace_scan p v (f g @ render f cs)"
        using replace_scan_before_angle [OF assms(1) nl, of v "tl_q @ render f cs"] q by simp
      also have "replace_scan p v (f g @ render f cs) = subst (p, v) (f g) @ replace_scan p v (render f cs)"
      proof (cases "f g = p")
        case True
        with replace_scan_same [OF pne, of v "render f cs"] show ?thesis by simp
      next
        case np: False
        then have "p \<noteq> f g" by simp
        from replace_scan_other [OF assms(1) wq this, of v "render f cs"] np show ?thesis by simp
      qed
      finally show ?thesis using ih Hole by (simp add: render_def)
    qed
  qed
qed

lemma fold_replace_render:
  assumes "\<forall>(p, v) \<in> set items. wf_ph p \<and> \<not> contains p (render (\<lambda>g. g) cs)"
    and "\<forall>g. Hole g \<in> set cs \<longrightarrow> f g = g \<or> (wf_ph (f g) \<and> map_of items (f g) = Some g)"
  shows "fold (\<lambda>(p, v) r. replace p v r) items (render f cs) = render (\<lambda>g. g) cs"
  using assms
proof (induction items arbitrary: f)
  case Nil
  then have "render f cs = render (\<lambda>g. g) cs" by (intro render_cong) simp
  then show ?case by simp
next
  case (Cons x items)
  obtain p v where x: "x = (p, v)" by (cases x)
  from Cons.prems(1) x have wp: "wf_ph p" and np: "\<not> contains p (render (\<lambda>g. g) cs)"
    and rest: "\<forall>(p, v) \<in> set items. wf_ph p \<and> \<not> contains p (render (\<lambda>g. g) cs)" by simp_all
  have pne: "p \<noteq> []" using wp by (auto simp: wf_ph_def)
  have holes: "\<forall>g. Hole g \<in> set cs \<longrightarrow> f g = g \<or> wf_ph (f g)" using Cons.prems(2) by blast
  have "replace p v (render f cs) = render (\<lambda>g. subst (p, v) (f g)) cs"
    using replace_render [OF wp holes, of "[]" v] np pne by (simp add: replace_def)
  moreover have "\<forall>g. Hole g \<in> set cs \<longrightarrow>
      subst (p, v) (f g) = g \<or> (wf_ph (subst (p, v) (f g)) \<and> map_of items (subst (p, v) (f g)) = Some g)"
  proof (intro allI impI)
    fix g assume h: "Hole g \<in> set cs"
    show "subst (p, v) (f g) = g \<or> (wf_ph (subst (p, v) (f g)) \<and> map_of items (subst (p, v) (f g)) = Some g)"
    proof (cases "f g = p")
      case True
      show ?thesis
      proof (cases "f g = g")
        case g: True
        have "contains p (render (\<lambda>g. g) cs)"
        proof -
          from h obtain as bs where "cs = as @ Hole g # bs" by (auto simp: in_set_conv_decomp)
          then have "render (\<lambda>g. g) cs = render (\<lambda>g. g) as @ p @ render (\<lambda>g. g) bs"
            using True g by (simp add: render_def)
          then show ?thesis unfolding contains_iff by blast
        qed
        with np show ?thesis by simp
      next
        case False
        with Cons.prems(2) h x True have "v = g" by auto
        with True show ?thesis by simp
      qed
    next
      case False
      with Cons.prems(2) h x show ?thesis by auto
    qed
  qed
  ultimately show ?case
    using Cons.IH [OF rest, of "\<lambda>g. subst (p, v) (f g)"] by (simp add: x)
qed

lemma registry_step:
  assumes "registry_inv m" and "ty \<in> entity_types"
  shows "registry_inv (snd (add m g ty))"
proof (cases "map_of (forward m) g")
  case (Some p)
  then have "snd (add m g ty) = m" by (simp add: add_def)
  with assms(1) show ?thesis by simp
next
  case None
  let ?p0 = "placeholder ty (Suc (count_of m ty))"
  let ?m' = "snd (add m g ty)"
  have fw: "map_of (forward ?m') = (map_of (forward m))(g \<mapsto> ?p0)"
    using None by (simp add: add_def Let_def count_of_def map_of_dict_set)
  have rv: "map_of (reverse ?m') = (map_of (reverse m))(?p0 \<mapsto> g)"
    using None by (simp add: add_def Let_def count_of_def map_of_dict_set)
  have rs: "set (reverse ?m') \<subseteq> insert (?p0, g) (set (reverse m))"
    using None set_dict_set [of ?p0 g "reverse m"] by (simp add: add_def Let_def count_of_def)
  have ec: "count_of ?m' ty' = (if ty' = ty then Suc (count_of m ty) else count_of m ty')" for ty'
    using None by (simp add: add_def Let_def count_of_def map_of_dict_set)
  have wf0: "wf_ph ?p0"
    using entity_types_clean [OF assms(2)] by (simp add: placeholder_wf)
  have a: "map_of (reverse ?m') p = Some g'
           \<and> (\<exists>ty' n. ty' \<in> entity_types \<and> n \<le> count_of ?m' ty' \<and> p = placeholder ty' n)"
    if h: "map_of (forward ?m') g' = Some p" for g' p
  proof (cases "g' = g")
    case True
    with h fw have "p = ?p0" by simp
    with True rv assms(2) ec [of ty] show ?thesis
      by (intro conjI exI [of _ ty] exI [of _ "Suc (count_of m ty)"]) simp_all
  next
    case False
    with h fw have old: "map_of (forward m) g' = Some p" by simp
    with assms(1) obtain ty' n where r: "map_of (reverse m) p = Some g'"
      and t: "ty' \<in> entity_types" and n: "n \<le> count_of m ty'" and p: "p = placeholder ty' n"
      unfolding registry_inv_def by blast
    have "p \<noteq> ?p0"
    proof
      assume "p = ?p0"
      with p have "ty' = ty \<and> n = Suc (count_of m ty)" by (intro placeholder_inj) simp
      with n show False by simp
    qed
    with r rv have "map_of (reverse ?m') p = Some g'" by simp
    moreover have "n \<le> count_of ?m' ty'" using n ec [of ty'] by auto
    ultimately show ?thesis using t p by blast
  qed
  have b: "\<forall>(p, g') \<in> set (reverse ?m'). wf_ph p"
    using rs assms(1) wf0 unfolding registry_inv_def by blast
  show ?thesis unfolding registry_inv_def using a b by blast
qed

lemma registry_register:
  "registry_inv m \<Longrightarrow> \<forall>(s, e, ty, g) \<in> set ks. ty \<in> entity_types
   \<Longrightarrow> registry_inv (register_all ks m)"
proof (induction ks arbitrary: m)
  case Nil
  then show ?case by simp
next
  case (Cons x ks)
  obtain s e ty g where x: "x = (s, e, ty, g)" by (cases x)
  from Cons.prems x have "registry_inv (snd (add m g ty))"
    by (intro registry_step) simp_all
  moreover from Cons.prems(2) have "\<forall>(s, e, ty, g) \<in> set ks. ty \<in> entity_types" by simp
  ultimately show ?case using Cons.IH by (simp add: x)
qed

lemma registry_new_map: "registry_inv (new_map uid)"
  by (simp add: registry_inv_def new_map_def)

lemma register_covers:
  "(s, e, ty, g) \<in> set ks \<Longrightarrow> \<exists>p. map_of (forward (register_all ks m)) g = Some p"
proof (induction ks arbitrary: m)
  case Nil
  then show ?case by simp
next
  case (Cons x ks)
  obtain s0 e0 ty0 g0 where x: "x = (s0, e0, ty0, g0)" by (cases x)
  show ?case
  proof (cases "(s, e, ty, g) = x")
    case True
    with x have "map_of (forward (snd (add m g ty))) g = Some (fst (add m g ty))"
      by (simp add: add_forward_result)
    then have "map_of (forward (register_all ks (snd (add m g ty)))) g = Some (fst (add m g ty))"
      by (rule register_forward_keeps)
    with True x show ?thesis by auto
  next
    case False
    with Cons.prems have "(s, e, ty, g) \<in> set ks" by simp
    from Cons.IH [OF this] x show ?thesis by simp
  qed
qed

lemma chunks_holes: "Hole g \<in> set (chunks t b ks) \<Longrightarrow> \<exists>s e ty. (s, e, ty, g) \<in> set ks"
proof (induction ks arbitrary: b)
  case Nil
  then show ?case by simp
next
  case (Cons x ks)
  obtain s0 e0 ty0 g0 where x: "x = (s0, e0, ty0, g0)" by (cases x)
  from Cons.prems x have "Hole g \<in> set (chunks t s0 ks) \<or> g = g0" by auto
  then show ?case
  proof
    assume "Hole g \<in> set (chunks t s0 ks)"
    from Cons.IH [OF this] obtain s e ty where "(s, e, ty, g) \<in> set ks" by blast
    then have "(s, e, ty, g) \<in> set (x # ks)" by simp
    then show ?thesis by blast
  next
    assume "g = g0"
    with x have "(s0, e0, ty0, g) \<in> set (x # ks)" by simp
    then show ?thesis by blast
  qed
qed

lemma redact_stores:
  assumes "redact st uid text = (st', redacted, m)"
  shows "st' (ident m) = Some m"
proof -
  have "fst (redact st uid text) (ident (snd (snd (redact st uid text)))) = Some (snd (snd (redact st uid text)))"
    by (simp add: redact_def Let_def split_def new_map_def)
  with assms show ?thesis by simp
qed

lemma de_redact_stored:
  "st (ident m) = Some m \<Longrightarrow>
   de_redact st r (ident m) = Inr (fold (\<lambda>(p, original) result. replace p original result) (reverse m) r)"
  by (simp add: de_redact_def)

lemma restore_rendered:
  assumes "m = register_all (filtered_spans (collect_matches text)) (new_map uid)"
    and "\<forall>p \<in> fst ` set (reverse m). \<not> contains p text"
  shows "fold (\<lambda>(p, original) result. replace p original result) (reverse m)
           (render (placeholder_of m) (chunks text (length text) (filtered_spans (collect_matches text))))
         = text"
proof -
  let ?ks = "filtered_spans (collect_matches text)"
  let ?cs = "chunks text (length text) ?ks"
  have spans: "\<forall>(s, e, ty, g) \<in> set ?ks. ty \<in> entity_types"
  proof (clarify)
    fix s e ty g assume "(s, e, ty, g) \<in> set ?ks"
    then have "(s, e, ty, g) \<in> set (collect_matches text)"
      using set_filtered [of "collect_matches text"] by blast
    from collect_matches_spans [OF this] show "ty \<in> entity_types" by simp
  qed
  have inv: "registry_inv m"
    unfolding assms(1) by (rule registry_register [OF registry_new_map spans])
  have original: "render (\<lambda>g. g) ?cs = text"
    using render_original [OF filtered_wellplaced, of "text"] by simp
  have items: "\<forall>(p, v) \<in> set (reverse m). wf_ph p \<and> \<not> contains p (render (\<lambda>g. g) ?cs)"
    unfolding original using inv assms(2) by (fastforce simp: registry_inv_def)
  have holes: "\<forall>g. Hole g \<in> set ?cs \<longrightarrow>
      placeholder_of m g = g
      \<or> (wf_ph (placeholder_of m g) \<and> map_of (reverse m) (placeholder_of m g) = Some g)"
  proof (intro allI impI)
    fix g assume "Hole g \<in> set ?cs"
    from chunks_holes [OF this] obtain s e ty where "(s, e, ty, g) \<in> set ?ks" by blast
    from register_covers [OF this, of "new_map uid"] obtain p where p: "map_of (forward m) g = Some p"
      unfolding assms(1) by blast
    with inv obtain ty' n where "map_of (reverse m) p = Some g" and "ty' \<in> entity_types"
      and "p = placeholder ty' n"
      unfolding registry_inv_def by blast
    with p show "placeholder_of m g = g
      \<or> (wf_ph (placeholder_of m g) \<and> map_of (reverse m) (placeholder_of m g) = Some g)"
      using entity_types_clean [of ty'] by (auto simp: placeholder_wf placeholder_of_def)
  qed
  have "fold (\<lambda>(p, original) result. replace p original result) (reverse m) (render (placeholder_of m) ?cs)
        = render (\<lambda>g. g) ?cs"
    by (rule fold_replace_render [OF items holes])
  with original show ?thesis by simp
qed

text \<open>
  C1 (round trip), as the code has it. \<open>redact\<close> stores the map under its identifier. When
  none of the placeholders that this call has issued (the keys of the reverse table of the
  returned map) occurs in the input text, \<open>de_redact\<close> of the redacted text, against any
  store that still holds the map under that identifier, returns the original text. The input
  may hold \<open><\<close>, \<open>>\<close> and even placeholders of other numbers or categories.
\<close>

theorem round_trip_unless_issued:
  assumes "redact st uid text = (st', redacted, m)"
    and "\<forall>p \<in> fst ` set (reverse m). \<not> contains p text"
    and "st'' (ident m) = Some m"
  shows "st' (ident m) = Some m \<and> de_redact st'' redacted (ident m) = Inr text"
proof -
  have "fold (\<lambda>(p, original) result. replace p original result) (reverse m) redacted = text"
  proof (cases "text = [] \<or> (\<forall>c \<in> set text. is_space c)")
    case True
    then have "redact st uid text = (st(uid \<mapsto> new_map uid), text, new_map uid)"
      by (auto simp: redact_def strip_empty_iff)
    with assms(1) have "m = new_map uid" and "redacted = text" by simp_all
    then show ?thesis by (simp add: new_map_def)
  next
    case False
    define M where "M = register_all (filtered_spans (collect_matches text)) (new_map uid)"
    have "redact st uid text
          = (st(ident M \<mapsto> M),
             render (placeholder_of M) (chunks text (length text) (filtered_spans (collect_matches text))), M)"
      using redact_unfold [OF False, of st uid] by (simp add: Let_def M_def)
    with assms(1) have mM: "m = M"
      and rM: "redacted = render (placeholder_of M)
                 (chunks text (length text) (filtered_spans (collect_matches text)))"
      by auto
    have "\<forall>p \<in> fst ` set (reverse M). \<not> contains p text" using assms(2) mM by simp
    from restore_rendered [OF M_def this] mM rM show ?thesis by simp
  qed
  moreover have "de_redact st'' redacted (ident m)
        = Inr (fold (\<lambda>(p, original) result. replace p original result) (reverse m) redacted)"
    using assms(3) by (rule de_redact_stored)
  ultimately show ?thesis using redact_stores [OF assms(1)] by simp
qed

text \<open>
  A text that already holds the placeholder that the call issues does not come back:
  \<open>redact\<close> leaves the \<open><SG_NRIC_1>\<close> of the input as it is and gives the identity number
  the same placeholder, and \<open>de_redact\<close> replaces both.
\<close>

theorem round_trip_counterexample:
  "de_redact (fst (redact Map.empty ''u'' ''<SG_NRIC_1> S1234567A''))
     (fst (snd (redact Map.empty ''u'' ''<SG_NRIC_1> S1234567A'')))
     (ident (snd (snd (redact Map.empty ''u'' ''<SG_NRIC_1> S1234567A''))))
   = Inr ''S1234567A S1234567A''
   \<and> ''S1234567A S1234567A'' \<noteq> ''<SG_NRIC_1> S1234567A''"
  by code_simp

theorem round_trip_unless_issued_witness:
  "redact Map.empty ''u'' ''<b>NRIC</b> S1234567A <PERSON_1> <SG_NRIC_2>''
       = (fst (redact Map.empty ''u'' ''<b>NRIC</b> S1234567A <PERSON_1> <SG_NRIC_2>''),
          ''<b>NRIC</b> <SG_NRIC_1> <PERSON_1> <SG_NRIC_2>'',
          \<lparr>ident = ''u'',
           forward = [(''S1234567A'', ''<SG_NRIC_1>'')],
           reverse = [(''<SG_NRIC_1>'', ''S1234567A'')],
           entity_counts = [(''SG_NRIC'', 1)]\<rparr>)
   \<and> \<not> contains ''<SG_NRIC_1>'' ''<b>NRIC</b> S1234567A <PERSON_1> <SG_NRIC_2>''
   \<and> de_redact (fst (redact Map.empty ''u'' ''<b>NRIC</b> S1234567A <PERSON_1> <SG_NRIC_2>''))
        ''<b>NRIC</b> <SG_NRIC_1> <PERSON_1> <SG_NRIC_2>'' ''u''
       = Inr ''<b>NRIC</b> S1234567A <PERSON_1> <SG_NRIC_2>''"
proof -
  let ?m = "\<lparr>ident = ''u'',
           forward = [(''S1234567A'', ''<SG_NRIC_1>'')],
           reverse = [(''<SG_NRIC_1>'', ''S1234567A'')],
           entity_counts = [(''SG_NRIC'', 1)]\<rparr>"
  have "snd (redact Map.empty ''u'' ''<b>NRIC</b> S1234567A <PERSON_1> <SG_NRIC_2>'')
        = (''<b>NRIC</b> <SG_NRIC_1> <PERSON_1> <SG_NRIC_2>'', ?m)"
    by code_simp
  then have h1: "redact Map.empty ''u'' ''<b>NRIC</b> S1234567A <PERSON_1> <SG_NRIC_2>''
       = (fst (redact Map.empty ''u'' ''<b>NRIC</b> S1234567A <PERSON_1> <SG_NRIC_2>''),
          ''<b>NRIC</b> <SG_NRIC_1> <PERSON_1> <SG_NRIC_2>'', ?m)"
    by (simp add: prod_eq_iff)
  have a: "\<not> contains ''<SG_NRIC_1>'' ''<b>NRIC</b> S1234567A <PERSON_1> <SG_NRIC_2>''"
    by code_simp
  then have h2: "\<forall>p \<in> fst ` set (reverse ?m).
         \<not> contains p ''<b>NRIC</b> S1234567A <PERSON_1> <SG_NRIC_2>''"
    by simp
  have h3: "fst (redact Map.empty ''u'' ''<b>NRIC</b> S1234567A <PERSON_1> <SG_NRIC_2>'') (ident ?m) = Some ?m"
    by (rule redact_stores [OF h1])
  have c: "de_redact (fst (redact Map.empty ''u'' ''<b>NRIC</b> S1234567A <PERSON_1> <SG_NRIC_2>''))
        ''<b>NRIC</b> <SG_NRIC_1> <PERSON_1> <SG_NRIC_2>'' (ident ?m)
       = Inr ''<b>NRIC</b> S1234567A <PERSON_1> <SG_NRIC_2>''"
    using round_trip_unless_issued
      [where st'' = "fst (redact Map.empty ''u'' ''<b>NRIC</b> S1234567A <PERSON_1> <SG_NRIC_2>'')"
         and m = ?m, OF h1 h2 h3]
    by (rule conjunct2)
  have i: "ident ?m = ''u''" by simp
  show ?thesis
    using h1 a c unfolding i by (intro conjI)
qed

end
